theory Spec2Isabelle
  imports Main
begin

section \<open>Python strings and the library functions the script calls\<close>

text \<open>
  A Python \<open>str\<close> is a sequence of Unicode code points; it is modelled as a list of
  natural numbers, so that \<open>length\<close> counts what Python's \<open>len\<close> counts.
  ASCII literals are written through \<open>ascii\<close>.
\<close>

type_synonym ustr = "nat list"

definition ascii :: "string \<Rightarrow> ustr" where
  "ascii s = map of_char s"

text \<open>The two column names the script looks for, as code points:
  U+57FA U+91D1 U+78BC (fund code) and U+57FA U+91D1 U+5168 U+7A31 (fund full name).\<close>

definition FUND_CODE :: ustr where
  "FUND_CODE = [22522, 37329, 30908]"

definition FUND_FULL_NAME :: ustr where
  "FUND_FULL_NAME = [22522, 37329, 20840, 31281]"

datatype py_error =
    UnicodeDecodeError
  | UnicodeEncodeError
  | FileNotFoundError
  | FileExistsError
  | NotADirectoryError
  | IsADirectoryError
  | StopIteration
  | CsvFieldLimit
  | CsvNewlineInField

subsection \<open>\<open>str.strip()\<close>\<close>

text \<open>The characters Python's \<open>str.strip()\<close> removes: those for which
  \<open>str.isspace\<close> holds.\<close>

definition isspace :: "nat \<Rightarrow> bool" where
  "isspace c \<longleftrightarrow>
     (9 \<le> c \<and> c \<le> 13) \<or> (28 \<le> c \<and> c \<le> 32) \<or> c = 133 \<or> c = 160 \<or> c = 5760 \<or>
     (8192 \<le> c \<and> c \<le> 8202) \<or> c = 8232 \<or> c = 8233 \<or> c = 8239 \<or> c = 8287 \<or> c = 12288"

definition strip :: "ustr \<Rightarrow> ustr" where
  "strip s = rev (dropWhile isspace (rev (dropWhile isspace s)))"

subsection \<open>\<open>str.split(',')\<close> and \<open>list.index\<close>\<close>

text \<open>\<open>s.split(sep)\<close> with a one-character separator: always at least one piece.\<close>

fun split_acc :: "nat \<Rightarrow> ustr \<Rightarrow> ustr \<Rightarrow> ustr list" where
  "split_acc sep cur [] = [cur]"
| "split_acc sep cur (c # cs) =
     (if c = sep then cur # split_acc sep [] cs else split_acc sep (cur @ [c]) cs)"

definition split :: "nat \<Rightarrow> ustr \<Rightarrow> ustr list" where
  "split sep s = split_acc sep [] s"

definition COMMA :: nat where "COMMA = 44"
definition QUOTE :: nat where "QUOTE = 34"
definition LF :: nat where "LF = 10"
definition CR :: nat where "CR = 13"

text \<open>\<open>xs.index(x)\<close>: the position of the first element equal to \<open>x\<close>;
  \<open>None\<close> stands for the \<open>ValueError\<close> Python raises when there is none.\<close>

fun list_index :: "'a list \<Rightarrow> 'a \<Rightarrow> nat option" where
  "list_index [] x = None"
| "list_index (y # ys) x =
     (if y = x then Some 0 else map_option Suc (list_index ys x))"

subsection \<open>\<open>csv.reader\<close> with the default dialect\<close>

text \<open>
  The reader of CPython's \<open>_csv\<close> module, for the dialect \<open>excel\<close> that
  \<open>csv.reader(lines)\<close> uses when no dialect is given: delimiter \<open>,\<close>, quote character
  \<open>"\<close>, doubled quotes, no escape character, no skipping of initial spaces, not strict,
  minimal quoting. The states that only an escape character reaches are left out.
  A field may hold at most \<open>field_limit\<close> characters (\<open>csv.field_size_limit()\<close>,
  131072 unless changed, and the script does not change it). The model follows CPython
  3.11 and later, where a NUL character is a character like any other.
\<close>

datatype csv_state =
    START_RECORD | START_FIELD | IN_FIELD | IN_QUOTED_FIELD | QUOTE_IN_QUOTED_FIELD | EAT_CRNL

record reader =
  r_state :: csv_state
  r_fields :: "ustr list"
  r_field :: ustr

definition field_limit :: nat where
  "field_limit = 131072"

definition parse_reset :: reader where
  "parse_reset = \<lparr>r_state = START_RECORD, r_fields = [], r_field = []\<rparr>"

definition parse_add_char :: "reader \<Rightarrow> nat \<Rightarrow> py_error + reader" where
  "parse_add_char r c =
     (if field_limit \<le> length (r_field r) then Inl CsvFieldLimit
      else Inr (r\<lparr>r_field := r_field r @ [c]\<rparr>))"

definition parse_save_field :: "reader \<Rightarrow> reader" where
  "parse_save_field r = r\<lparr>r_fields := r_fields r @ [r_field r], r_field := []\<rparr>"

definition is_nl :: "nat \<Rightarrow> bool" where
  "is_nl c \<longleftrightarrow> c = LF \<or> c = CR"

text \<open>One step of the reader on a character; \<open>None\<close> is the end-of-line marker the
  reader feeds itself after the last character of every line.\<close>

fun start_field :: "reader \<Rightarrow> nat option \<Rightarrow> py_error + reader" where
  "start_field r None = Inr ((parse_save_field r)\<lparr>r_state := START_RECORD\<rparr>)"
| "start_field r (Some c) =
     (if is_nl c then Inr ((parse_save_field r)\<lparr>r_state := EAT_CRNL\<rparr>)
      else if c = QUOTE then Inr (r\<lparr>r_state := IN_QUOTED_FIELD\<rparr>)
      else if c = COMMA then Inr (parse_save_field r)
      else (case parse_add_char r c of
              Inl e \<Rightarrow> Inl e
            | Inr r' \<Rightarrow> Inr (r'\<lparr>r_state := IN_FIELD\<rparr>)))"

fun parse_process_char :: "reader \<Rightarrow> nat option \<Rightarrow> py_error + reader" where
  "parse_process_char r ch =
     (case r_state r of
        START_RECORD \<Rightarrow>
          (case ch of
             None \<Rightarrow> Inr r
           | Some c \<Rightarrow>
               if is_nl c then Inr (r\<lparr>r_state := EAT_CRNL\<rparr>)
               else start_field (r\<lparr>r_state := START_FIELD\<rparr>) ch)
      | START_FIELD \<Rightarrow> start_field r ch
      | IN_FIELD \<Rightarrow>
          (case ch of
             None \<Rightarrow> Inr ((parse_save_field r)\<lparr>r_state := START_RECORD\<rparr>)
           | Some c \<Rightarrow>
               if is_nl c then Inr ((parse_save_field r)\<lparr>r_state := EAT_CRNL\<rparr>)
               else if c = COMMA then Inr ((parse_save_field r)\<lparr>r_state := START_FIELD\<rparr>)
               else parse_add_char r c)
      | IN_QUOTED_FIELD \<Rightarrow>
          (case ch of
             None \<Rightarrow> Inr r
           | Some c \<Rightarrow>
               if c = QUOTE then Inr (r\<lparr>r_state := QUOTE_IN_QUOTED_FIELD\<rparr>)
               else parse_add_char r c)
      | QUOTE_IN_QUOTED_FIELD \<Rightarrow>
          (case ch of
             None \<Rightarrow> Inr ((parse_save_field r)\<lparr>r_state := START_RECORD\<rparr>)
           | Some c \<Rightarrow>
               if c = QUOTE then
                 (case parse_add_char r c of
                    Inl e \<Rightarrow> Inl e
                  | Inr r' \<Rightarrow> Inr (r'\<lparr>r_state := IN_QUOTED_FIELD\<rparr>))
               else if c = COMMA then Inr ((parse_save_field r)\<lparr>r_state := START_FIELD\<rparr>)
               else if is_nl c then Inr ((parse_save_field r)\<lparr>r_state := EAT_CRNL\<rparr>)
               else (case parse_add_char r c of
                       Inl e \<Rightarrow> Inl e
                     | Inr r' \<Rightarrow> Inr (r'\<lparr>r_state := IN_FIELD\<rparr>)))
      | EAT_CRNL \<Rightarrow>
          (case ch of
             None \<Rightarrow> Inr (r\<lparr>r_state := START_RECORD\<rparr>)
           | Some c \<Rightarrow> if is_nl c then Inr r else Inl CsvNewlineInField))"

text \<open>The characters of one line, and then the end-of-line marker.\<close>

fun process_chars :: "reader \<Rightarrow> ustr \<Rightarrow> py_error + reader" where
  "process_chars r [] = Inr r"
| "process_chars r (c # cs) =
     (case parse_process_char r (Some c) of
        Inl e \<Rightarrow> Inl e
      | Inr r' \<Rightarrow> process_chars r' cs)"

definition process_line :: "reader \<Rightarrow> ustr \<Rightarrow> py_error + reader" where
  "process_line r l =
     (case process_chars r l of
        Inl e \<Rightarrow> Inl e
      | Inr r' \<Rightarrow> parse_process_char r' None)"

text \<open>\<open>Reader_iternext\<close>: lines are taken from the input until the reader is back
  at the start of a record; when the input runs out inside a record, what was read so far
  is the row, and with nothing read the iteration stops.\<close>

fun iternext_loop :: "reader \<Rightarrow> ustr list \<Rightarrow> py_error + ustr list" where
  "iternext_loop r [] =
     (if r_field r \<noteq> [] \<or> r_state r = IN_QUOTED_FIELD then Inr (r_fields (parse_save_field r))
      else Inl StopIteration)"
| "iternext_loop r (l # ls) =
     (case process_line r l of
        Inl e \<Rightarrow> Inl e
      | Inr r' \<Rightarrow> if r_state r' = START_RECORD then Inr (r_fields r') else iternext_loop r' ls)"

definition Reader_iternext :: "ustr list \<Rightarrow> py_error + ustr list" where
  "Reader_iternext input = iternext_loop parse_reset input"


section \<open>The extraction loop\<close>

text \<open>One output record, the dictionary \<open>{'id': fund_id, 'name': fund_name}\<close>.\<close>

record fund =
  fund_id :: ustr
  fund_name :: ustr

text \<open>
  The loop over \<open>lines[3:]\<close>. Each line is handed to a reader of its own,
  \<open>csv.reader([line])\<close>, and \<open>next(reader)\<close> is its row. The list \<open>funds\<close>
  is the accumulator the loop appends to. An exception of the reader leaves the loop
  (and the program).
\<close>

fun process_lines :: "nat \<Rightarrow> nat \<Rightarrow> fund list \<Rightarrow> ustr list \<Rightarrow> py_error + fund list" where
  "process_lines id_index name_index funds [] = Inr funds"
| "process_lines id_index name_index funds (line # rest) =
     (case Reader_iternext [line] of
        Inl e \<Rightarrow> Inl e
      | Inr row \<Rightarrow>
          if length row > max id_index name_index then
            (let fid = strip (row ! id_index);
                 fname = strip (row ! name_index)
             in if fid \<noteq> [] \<and> fname \<noteq> []
                then process_lines id_index name_index
                       (funds @ [\<lparr>fund_id = fid, fund_name = fname\<rparr>]) rest
                else process_lines id_index name_index funds rest)
          else process_lines id_index name_index funds rest)"

section \<open>Reading the source file\<close>

type_synonym bytes = "nat list"

subsection \<open>Decoding\<close>

text \<open>The strict UTF-8 decoder: no overlong forms, no surrogates, nothing above
  U+10FFFF. \<open>None\<close> is \<open>UnicodeDecodeError\<close>.\<close>

definition cont :: "nat \<Rightarrow> bool" where
  "cont b \<longleftrightarrow> 128 \<le> b \<and> b \<le> 191"

fun utf8_decode :: "bytes \<Rightarrow> ustr option" where
  "utf8_decode [] = Some []"
| "utf8_decode (b0 # bs) =
     (if b0 < 128 then map_option ((#) b0) (utf8_decode bs)
      else if 194 \<le> b0 \<and> b0 \<le> 223 then
        (case bs of
           b1 # r \<Rightarrow>
             if cont b1
             then map_option ((#) ((b0 - 192) * 64 + (b1 - 128))) (utf8_decode r)
             else None
         | _ \<Rightarrow> None)
      else if 224 \<le> b0 \<and> b0 \<le> 239 then
        (case bs of
           b1 # b2 # r \<Rightarrow>
             if cont b1 \<and> cont b2 \<and> (if b0 = 224 then 160 \<le> b1 else True)
                \<and> (if b0 = 237 then b1 \<le> 159 else True)
             then map_option
                    ((#) ((b0 - 224) * 4096 + (b1 - 128) * 64 + (b2 - 128))) (utf8_decode r)
             else None
         | _ \<Rightarrow> None)
      else if 240 \<le> b0 \<and> b0 \<le> 244 then
        (case bs of
           b1 # b2 # b3 # r \<Rightarrow>
             if cont b1 \<and> cont b2 \<and> cont b3 \<and> (if b0 = 240 then 144 \<le> b1 else True)
                \<and> (if b0 = 244 then b1 \<le> 143 else True)
             then map_option
                    ((#) ((b0 - 240) * 262144 + (b1 - 128) * 4096 + (b2 - 128) * 64 + (b3 - 128)))
                    (utf8_decode r)
             else None
         | _ \<Rightarrow> None)
      else None)"

text \<open>The codec \<open>utf-8-sig\<close>: a leading byte-order mark EF BB BF is skipped.\<close>

fun utf_8_sig_decode :: "bytes \<Rightarrow> ustr option" where
  "utf_8_sig_decode (a # b # c # bs) =
     (if a = 239 \<and> b = 187 \<and> c = 191 then utf8_decode bs else utf8_decode (a # b # c # bs))"
| "utf_8_sig_decode bs = utf8_decode bs"

subsection \<open>Text mode: universal newlines and \<open>readlines\<close>\<close>

text \<open>A file opened in text mode with the default \<open>newline=None\<close> turns
  \<open>\r\n\<close> and a lone \<open>\r\<close> into \<open>\n\<close>.\<close>

fun translate_newlines :: "ustr \<Rightarrow> ustr" where
  "translate_newlines [] = []"
| "translate_newlines [a] = [if a = CR then LF else a]"
| "translate_newlines (a # b # cs) =
     (if a = CR \<and> b = LF then LF # translate_newlines cs
      else if a = CR then LF # translate_newlines (b # cs)
      else a # translate_newlines (b # cs))"

text \<open>\<open>readlines\<close>: every line keeps its \<open>\n\<close>; only the last line can be
  without one.\<close>

fun lines_acc :: "ustr \<Rightarrow> ustr \<Rightarrow> ustr list" where
  "lines_acc cur [] = (if cur = [] then [] else [cur])"
| "lines_acc cur (c # cs) =
     (if c = LF then (cur @ [c]) # lines_acc [] cs else lines_acc (cur @ [c]) cs)"

definition readlines :: "ustr \<Rightarrow> ustr list" where
  "readlines text = lines_acc [] (translate_newlines text)"

section \<open>The file system and the console\<close>

text \<open>A path is the list of its components. The world the script runs in: the regular
  files with their bytes, the directories, and what has been printed. Permissions and
  input/output errors are not part of the model.\<close>

type_synonym path = "ustr list"

datatype msg =
    ReadingCsvFrom path
  | Utf8DecodeFailed
  | CsvTooShort
  | ErrorFindingHeaders ustr
  | AvailableHeaders "ustr list"
  | WritingFunds nat path
  | Success

record world =
  files :: "path \<rightharpoonup> bytes"
  dirs :: "path set"
  stdout :: "msg list"

definition print :: "world \<Rightarrow> msg \<Rightarrow> world" where
  "print w m = w\<lparr>stdout := stdout w @ [m]\<rparr>"

text \<open>The paths of the script, from the directory \<open>base\<close> two levels above the
  script's own file.\<close>

definition CSV_PATH :: "path \<Rightarrow> path" where
  "CSV_PATH base =
     base @ [ascii ''public'', ascii ''data'', ascii ''fund'',
             [22522, 37329, 22522, 26412, 36039, 26009] @ ascii ''.csv'']"

definition JSON_PATH :: "path \<Rightarrow> path" where
  "JSON_PATH base = base @ [ascii ''src'', ascii ''data'', ascii ''fund-list.json'']"

definition dirname :: "path \<Rightarrow> path" where
  "dirname p = butlast p"

text \<open>\<open>open(p, 'r')\<close> followed by reading all bytes.\<close>

definition open_read :: "world \<Rightarrow> path \<Rightarrow> py_error + bytes" where
  "open_read w p =
     (if p \<in> dirs w then Inl IsADirectoryError
      else case files w p of None \<Rightarrow> Inl FileNotFoundError | Some b \<Rightarrow> Inr b)"

text \<open>
  \<open>os.makedirs(p, exist_ok=True)\<close>: the missing ancestors are made first, then the
  directory itself; that it is already there is not an error, that a regular file is in
  the way is one. The root \<open>[]\<close> always exists.
\<close>

definition exists_path :: "world \<Rightarrow> path \<Rightarrow> bool" where
  "exists_path w p \<longleftrightarrow> p = [] \<or> p \<in> dirs w \<or> files w p \<noteq> None"

definition isdir :: "world \<Rightarrow> path \<Rightarrow> bool" where
  "isdir w p \<longleftrightarrow> p = [] \<or> p \<in> dirs w"

definition mkdir :: "world \<Rightarrow> path \<Rightarrow> py_error + world" where
  "mkdir w p =
     (if exists_path w p then Inl FileExistsError
      else if files w (butlast p) \<noteq> None then Inl NotADirectoryError
      else if \<not> isdir w (butlast p) then Inl FileNotFoundError
      else Inr (w\<lparr>dirs := insert p (dirs w)\<rparr>))"

function makedirs :: "world \<Rightarrow> path \<Rightarrow> py_error + world" where
  "makedirs w p =
     (case (if p \<noteq> [] \<and> butlast p \<noteq> [] \<and> \<not> exists_path w (butlast p)
            then (case makedirs w (butlast p) of
                    Inl e \<Rightarrow> if e = FileExistsError then Inr w else Inl e
                  | Inr w1 \<Rightarrow> Inr w1)
            else Inr w) of
        Inl e \<Rightarrow> Inl e
      | Inr w1 \<Rightarrow>
          (case mkdir w1 p of
             Inl e \<Rightarrow> if isdir w1 p then Inr w1 else Inl e
           | Inr w2 \<Rightarrow> Inr w2))"
  by pat_completeness auto
termination
  by (relation "measure (\<lambda>(w, p). length p)") auto

declare makedirs.simps [simp del]

text \<open>\<open>open(p, 'w')\<close>: the file is created, or emptied when it is there.\<close>

definition open_write :: "world \<Rightarrow> path \<Rightarrow> py_error + world" where
  "open_write w p =
     (if isdir w p then Inl IsADirectoryError
      else if files w (butlast p) \<noteq> None then Inl NotADirectoryError
      else if \<not> isdir w (butlast p) then Inl FileNotFoundError
      else Inr (w\<lparr>files := (files w)(p \<mapsto> [])\<rparr>))"

subsection \<open>Encoding\<close>

text \<open>The UTF-8 encoder of a file opened with \<open>encoding='utf-8'\<close>; only a surrogate
  (or a number that is no code point) cannot be encoded.\<close>

definition utf8_encode_char :: "nat \<Rightarrow> bytes option" where
  "utf8_encode_char c =
     (if c < 128 then Some [c]
      else if c < 2048 then Some [192 + c div 64, 128 + c mod 64]
      else if c < 65536 then
        (if 55296 \<le> c \<and> c \<le> 57343 then None
         else Some [224 + c div 4096, 128 + (c div 64) mod 64, 128 + c mod 64])
      else if c < 1114112 then
        Some [240 + c div 262144, 128 + (c div 4096) mod 64, 128 + (c div 64) mod 64,
              128 + c mod 64]
      else None)"

fun utf8_encode :: "ustr \<Rightarrow> bytes option" where
  "utf8_encode [] = Some []"
| "utf8_encode (c # cs) =
     (case utf8_encode_char c of
        None \<Rightarrow> None
      | Some b \<Rightarrow> map_option ((@) b) (utf8_encode cs))"

text \<open>Writing a text to a file opened for writing. When a character cannot be encoded
  the exception leaves the file as \<open>open\<close> emptied it (what had been flushed of the
  text before that character is not modelled).\<close>

definition write_text :: "world \<Rightarrow> path \<Rightarrow> ustr \<Rightarrow> (py_error + unit) \<times> world" where
  "write_text w p text =
     (case open_write w p of
        Inl e \<Rightarrow> (Inl e, w)
      | Inr w1 \<Rightarrow>
          (case utf8_encode text of
             None \<Rightarrow> (Inl UnicodeEncodeError, w1)
           | Some b \<Rightarrow> (Inr (), w1\<lparr>files := (files w1)(p \<mapsto> b)\<rparr>)))"

section \<open>\<open>json.dump(funds, f, ensure_ascii=False, indent=2)\<close>\<close>

text \<open>
  With \<open>ensure_ascii=False\<close> a string is written between double quotes with only
  the quote, the backslash and the control characters below U+0020 escaped (the short
  escapes where JSON has one, backslash \<open>u00xx\<close> in lower-case hexadecimal otherwise);
  every other character is written as it is.
\<close>

definition hex_digit :: "nat \<Rightarrow> nat" where
  "hex_digit d = (if d < 10 then 48 + d else 87 + d)"

definition escape_char :: "nat \<Rightarrow> ustr" where
  "escape_char c =
     (if c = 92 then [92, 92]
      else if c = 34 then [92, 34]
      else if c = 8 then [92, 98]
      else if c = 12 then [92, 102]
      else if c = 10 then [92, 110]
      else if c = 13 then [92, 114]
      else if c = 9 then [92, 116]
      else if c < 32 then [92, 117, 48, 48, hex_digit (c div 16), hex_digit (c mod 16)]
      else [c])"

definition py_encode_basestring :: "ustr \<Rightarrow> ustr" where
  "py_encode_basestring s = [QUOTE] @ concat (map escape_char s) @ [QUOTE]"

text \<open>With \<open>indent=2\<close> every item starts on a line of its own, indented by two spaces
  per nesting level; the item separator is \<open>,\<close> and the key separator \<open>: \<close>.\<close>

definition newline_indent :: "nat \<Rightarrow> ustr" where
  "newline_indent level = LF # replicate (2 * level) 32"

fun join :: "ustr \<Rightarrow> ustr list \<Rightarrow> ustr" where
  "join sep [] = []"
| "join sep [x] = x"
| "join sep (x # y # ys) = x @ sep @ join sep (y # ys)"

definition encode_item :: "ustr \<times> ustr \<Rightarrow> ustr" where
  "encode_item kv = py_encode_basestring (fst kv) @ ascii '': '' @ py_encode_basestring (snd kv)"

definition iterencode_dict :: "nat \<Rightarrow> (ustr \<times> ustr) list \<Rightarrow> ustr" where
  "iterencode_dict level items =
     (if items = [] then ascii ''{}''
      else ascii ''{'' @ newline_indent (level + 1)
           @ join ([COMMA] @ newline_indent (level + 1)) (map encode_item items)
           @ newline_indent level @ ascii ''}'')"

definition iterencode_list :: "nat \<Rightarrow> (ustr \<times> ustr) list list \<Rightarrow> ustr" where
  "iterencode_list level lst =
     (if lst = [] then ascii ''[]''
      else ascii ''['' @ newline_indent (level + 1)
           @ join ([COMMA] @ newline_indent (level + 1)) (map (iterencode_dict (level + 1)) lst)
           @ newline_indent level @ ascii '']'')"

text \<open>The items of a record's dictionary, in insertion order.\<close>

definition fund_items :: "fund \<Rightarrow> (ustr \<times> ustr) list" where
  "fund_items f = [(ascii ''id'', fund_id f), (ascii ''name'', fund_name f)]"

definition json_dumps :: "fund list \<Rightarrow> ustr" where
  "json_dumps funds = iterencode_list 0 (map fund_items funds)"

section \<open>The script\<close>

text \<open>Lines 15 to 23: the file is read as \<open>utf-8-sig\<close>; only a
  \<open>UnicodeDecodeError\<close> is caught, and then the file is read again as Big5. The Big5
  table of the Python library is a parameter.\<close>

definition read_lines ::
  "(bytes \<Rightarrow> ustr option) \<Rightarrow> world \<Rightarrow> path \<Rightarrow> (py_error + ustr list) \<times> world" where
  "read_lines big5_decode w p =
     (case open_read w p of
        Inl e \<Rightarrow> (Inl e, w)
      | Inr b \<Rightarrow>
          (case utf_8_sig_decode b of
             Some text \<Rightarrow> (Inr (readlines text), w)
           | None \<Rightarrow>
               (let w1 = print w Utf8DecodeFailed in
                case open_read w1 p of
                  Inl e \<Rightarrow> (Inl e, w1)
                | Inr b' \<Rightarrow>
                    (case big5_decode b' of
                       Some text \<Rightarrow> (Inr (readlines text), w1)
                     | None \<Rightarrow> (Inl UnicodeDecodeError, w1)))))"

text \<open>Lines 59 to 68.\<close>

definition write_json :: "world \<Rightarrow> path \<Rightarrow> fund list \<Rightarrow> (py_error + unit) \<times> world" where
  "write_json w base funds =
     (let w1 = print w (WritingFunds (length funds) (JSON_PATH base)) in
      case makedirs w1 (dirname (JSON_PATH base)) of
        Inl e \<Rightarrow> (Inl e, w1)
      | Inr w2 \<Rightarrow>
          (case write_text w2 (JSON_PATH base) (json_dumps funds) of
             (Inl e, w3) \<Rightarrow> (Inl e, w3)
           | (Inr u, w3) \<Rightarrow> (Inr (), print w3 Success)))"

text \<open>Lines 25 to 68, on the lines that were read.\<close>

definition process_csv :: "world \<Rightarrow> path \<Rightarrow> ustr list \<Rightarrow> (py_error + unit) \<times> world" where
  "process_csv w base lines =
     (if length lines < 3 then (Inr (), print w CsvTooShort)
      else
        (let header_line = strip (lines ! 2);
             headers = split COMMA header_line
         in case list_index headers FUND_CODE of
              None \<Rightarrow>
                (Inr (), print (print w (ErrorFindingHeaders FUND_CODE)) (AvailableHeaders headers))
            | Some id_index \<Rightarrow>
                (case list_index headers FUND_FULL_NAME of
                   None \<Rightarrow>
                     (Inr (), print (print w (ErrorFindingHeaders FUND_FULL_NAME))
                                (AvailableHeaders headers))
                 | Some name_index \<Rightarrow>
                     (case process_lines id_index name_index [] (drop 3 lines) of
                        Inl e \<Rightarrow> (Inl e, w)
                      | Inr funds \<Rightarrow> write_json w base funds))))"

definition generate_fund_list ::
  "(bytes \<Rightarrow> ustr option) \<Rightarrow> path \<Rightarrow> world \<Rightarrow> (py_error + unit) \<times> world" where
  "generate_fund_list big5_decode base w =
     (let w1 = print w (ReadingCsvFrom (CSV_PATH base)) in
      case read_lines big5_decode w1 (CSV_PATH base) of
        (Inl e, w2) \<Rightarrow> (Inl e, w2)
      | (Inr lines, w2) \<Rightarrow> process_csv w2 base lines)"

section \<open>What the specification says of a row\<close>

text \<open>A parsed row is accepted when it has a field at both column indices and both
  fields are non-empty once trimmed; an accepted row gives the record of its two trimmed
  fields. These two definitions follow the specification's words, and the theorems below
  compare the loop with them.\<close>

definition accepted :: "nat \<Rightarrow> nat \<Rightarrow> ustr list \<Rightarrow> bool" where
  "accepted i n row \<longleftrightarrow>
     i < length row \<and> n < length row \<and> strip (row ! i) \<noteq> [] \<and> strip (row ! n) \<noteq> []"


text \<open>The seven lines of the specification's scenario, and the two records expected
  of them.\<close>

definition scenario_lines :: "ustr list" where
  "scenario_lines =
     [ascii ''meta1\<newline>'', ascii ''meta2\<newline>'',
      FUND_CODE @ [COMMA] @ FUND_FULL_NAME @ [LF],
      ascii ''001,Alpha Growth Fund\<newline>'',
      ascii '',Orphan Fund\<newline>'',
      ascii ''002,\<newline>'',
      ascii ''003,Beta Bond Fund\<newline>'']"

definition scenario_funds :: "fund list" where
  "scenario_funds =
     [\<lparr>fund_id = ascii ''001'', fund_name = ascii ''Alpha Growth Fund''\<rparr>,
      \<lparr>fund_id = ascii ''003'', fund_name = ascii ''Beta Bond Fund''\<rparr>]"

definition scenario_json :: ustr where
  \<open>scenario_json = ascii ''[\<newline>  {\<newline>    "id": "001",\<newline>    "name": "Alpha Growth Fund"\<newline>  },\<newline>  {\<newline>    "id": "003",\<newline>    "name": "Beta Bond Fund"\<newline>  }\<newline>]''\<close>

text \<open>An empty world, for the examples.\<close>

definition empty_world :: world where
  "empty_world = \<lparr>files = Map.empty, dirs = {}, stdout = []\<rparr>"

text \<open>Lines whose header names each column twice, and lines with the same fund twice.\<close>

definition duplicate_header_lines :: "ustr list" where
  "duplicate_header_lines =
     [ascii ''m\<newline>'', ascii ''m\<newline>'',
      FUND_CODE @ [COMMA] @ FUND_FULL_NAME @ [COMMA] @ FUND_CODE @ [COMMA] @ FUND_FULL_NAME @ [LF],
      ascii ''A,B,C,D\<newline>'']"


text \<open>Worlds that hold a source file: one below \<open>base = []\<close> with the given bytes.\<close>

definition world_with_csv :: "bytes \<Rightarrow> world" where
  "world_with_csv b = \<lparr>files = [CSV_PATH [] \<mapsto> b], dirs = {}, stdout = []\<rparr>"

definition no_header_bytes :: bytes where
  "no_header_bytes = ascii ''m\<newline>m\<newline>code,name\<newline>1,x\<newline>''"

definition too_short_bytes :: bytes where
  "too_short_bytes = ascii ''a\<newline>b''"




definition quote_field :: "ustr \<Rightarrow> ustr" where
  "quote_field f = [QUOTE] @ concat (map (\<lambda>c. if c = QUOTE then [QUOTE, QUOTE] else [c]) f) @ [QUOTE]"

text \<open>A field written the way \<open>csv.writer\<close> writes it by default: as it is when it
  holds no comma, quote or line break, between quotes otherwise.\<close>

definition plain_field :: "ustr \<Rightarrow> bool" where
  "plain_field f \<longleftrightarrow> (\<forall>c\<in>set f. c \<noteq> COMMA \<and> c \<noteq> QUOTE \<and> \<not> is_nl c)"

definition write_field :: "ustr \<Rightarrow> ustr" where
  "write_field f = (if plain_field f then f else quote_field f)"

definition quoted_header_lines :: "ustr list" where
  \<open>quoted_header_lines =
     [ascii ''m\<newline>'', ascii ''m\<newline>'',
      ascii ''"a,b",'' @ FUND_CODE @ [COMMA] @ FUND_FULL_NAME @ [LF],
      ascii ''"x,y",7,Seven\<newline>'',
      ascii ''x,y,7,Seven\<newline>'']\<close>

section \<open>Reading the output back\<close>

text \<open>
  What \<open>json.loads\<close> makes of a text, for the round trip: strings, arrays, objects and
  the three literals. Numbers are left out (the script writes none), so a text with a
  number is refused like a malformed one. An object is kept as the list of its members in
  the order of the text. The recursion of the decoder is bounded by the length of the
  text, which it cannot exceed.
\<close>

datatype json = JString ustr | JArray "json list" | JObject "(ustr \<times> json) list"
  | JNull | JTrue | JFalse

definition is_ws :: "nat \<Rightarrow> bool" where
  "is_ws c \<longleftrightarrow> c = 32 \<or> c = 9 \<or> c = 10 \<or> c = 13"

definition skip_ws :: "ustr \<Rightarrow> ustr" where
  "skip_ws s = dropWhile is_ws s"

definition hex_val :: "nat \<Rightarrow> nat option" where
  "hex_val c =
     (if 48 \<le> c \<and> c \<le> 57 then Some (c - 48)
      else if 97 \<le> c \<and> c \<le> 102 then Some (c - 87)
      else if 65 \<le> c \<and> c \<le> 70 then Some (c - 55)
      else None)"

definition hex4 :: "nat \<Rightarrow> nat \<Rightarrow> nat \<Rightarrow> nat \<Rightarrow> nat option" where
  "hex4 a b c d =
     (case (hex_val a, hex_val b, hex_val c, hex_val d) of
        (Some x, Some y, Some z, Some u) \<Rightarrow> Some (x * 4096 + y * 256 + z * 16 + u)
      | _ \<Rightarrow> None)"

text \<open>The character a one-letter escape stands for.\<close>

definition unescape :: "nat \<Rightarrow> nat option" where
  "unescape e =
     (if e = 34 then Some 34
      else if e = 92 then Some 92
      else if e = 47 then Some 47
      else if e = 98 then Some 8
      else if e = 102 then Some 12
      else if e = 110 then Some 10
      else if e = 114 then Some 13
      else if e = 116 then Some 9
      else None)"

text \<open>\<open>scanstring\<close>, from behind the opening quote: the string and what follows its
  closing quote. A control character that is not escaped is an error; a high surrogate
  escape followed by a low surrogate escape is one character.\<close>

fun scanstring :: "ustr \<Rightarrow> ustr \<Rightarrow> (ustr \<times> ustr) option" where
  "scanstring acc [] = None"
| "scanstring acc (c # cs) =
     (if c = 34 then Some (acc, cs)
      else if c = 92 then
        (case cs of
           [] \<Rightarrow> None
         | e # r \<Rightarrow>
             if e = 117 then
               (case r of
                  h1 # h2 # h3 # h4 # r' \<Rightarrow>
                    (case hex4 h1 h2 h3 h4 of
                       None \<Rightarrow> None
                     | Some u \<Rightarrow>
                         (case r' of
                            b # v # g1 # g2 # g3 # g4 # r'' \<Rightarrow>
                              (case hex4 g1 g2 g3 g4 of
                                 None \<Rightarrow> scanstring (acc @ [u]) r'
                               | Some u2 \<Rightarrow>
                                   if 55296 \<le> u \<and> u \<le> 56319 \<and> b = 92 \<and> v = 117
                                      \<and> 56320 \<le> u2 \<and> u2 \<le> 57343
                                   then scanstring
                                          (acc @ [65536 + (u - 55296) * 1024 + (u2 - 56320)]) r''
                                   else scanstring (acc @ [u]) r')
                          | _ \<Rightarrow> scanstring (acc @ [u]) r'))
                | _ \<Rightarrow> None)
             else
               (case unescape e of
                  None \<Rightarrow> None
                | Some ch \<Rightarrow> scanstring (acc @ [ch]) r))
      else if c < 32 then None
      else scanstring (acc @ [c]) cs)"

fun parse_value :: "nat \<Rightarrow> ustr \<Rightarrow> (json \<times> ustr) option"
  and parse_elements :: "nat \<Rightarrow> json list \<Rightarrow> ustr \<Rightarrow> (json \<times> ustr) option"
  and parse_members :: "nat \<Rightarrow> (ustr \<times> json) list \<Rightarrow> ustr \<Rightarrow> (json \<times> ustr) option"
where
  "parse_value 0 s = None"
| "parse_value (Suc k) s =
     (case s of
        [] \<Rightarrow> None
      | c # cs \<Rightarrow>
          if c = 34 then
            (case scanstring [] cs of
               None \<Rightarrow> None
             | Some (str, r) \<Rightarrow> Some (JString str, r))
          else if c = 91 then
            (case skip_ws cs of
               [] \<Rightarrow> None
             | d # r \<Rightarrow> if d = 93 then Some (JArray [], r) else parse_elements k [] (d # r))
          else if c = 123 then
            (case skip_ws cs of
               [] \<Rightarrow> None
             | d # r \<Rightarrow> if d = 125 then Some (JObject [], r) else parse_members k [] (d # r))
          else if take 4 s = ascii ''null'' then Some (JNull, drop 4 s)
          else if take 4 s = ascii ''true'' then Some (JTrue, drop 4 s)
          else if take 5 s = ascii ''false'' then Some (JFalse, drop 5 s)
          else None)"
| "parse_elements 0 acc s = None"
| "parse_elements (Suc k) acc s =
     (case parse_value k s of
        None \<Rightarrow> None
      | Some (v, r) \<Rightarrow>
          (case skip_ws r of
             [] \<Rightarrow> None
           | d # r' \<Rightarrow>
               if d = 93 then Some (JArray (acc @ [v]), r')
               else if d = 44 then parse_elements k (acc @ [v]) (skip_ws r')
               else None))"
| "parse_members 0 acc s = None"
| "parse_members (Suc k) acc s =
     (case s of
        [] \<Rightarrow> None
      | q # cs \<Rightarrow>
          if q \<noteq> 34 then None
          else
            (case scanstring [] cs of
               None \<Rightarrow> None
             | Some (key, r) \<Rightarrow>
                 (case skip_ws r of
                    [] \<Rightarrow> None
                  | d # r1 \<Rightarrow>
                      if d \<noteq> 58 then None
                      else
                        (case parse_value k (skip_ws r1) of
                           None \<Rightarrow> None
                         | Some (v, r2) \<Rightarrow>
                             (case skip_ws r2 of
                                [] \<Rightarrow> None
                              | d' # r3 \<Rightarrow>
                                  if d' = 125 then Some (JObject (acc @ [(key, v)]), r3)
                                  else if d' = 44
                                  then parse_members k (acc @ [(key, v)]) (skip_ws r3)
                                  else None)))))"

definition json_loads :: "ustr \<Rightarrow> json option" where
  "json_loads s =
     (case parse_value (length s) (skip_ws s) of
        None \<Rightarrow> None
      | Some (v, r) \<Rightarrow> if skip_ws r = [] then Some v else None)"

text \<open>The JSON value of a record, and the layout of its object in the output as the
  specification describes it: two-space indentation, the keys \<open>id\<close> and \<open>name\<close>.\<close>

definition fund_json :: "fund \<Rightarrow> json" where
  "fund_json f =
     JObject [(ascii ''id'', JString (fund_id f)), (ascii ''name'', JString (fund_name f))]"

definition object_text :: "fund \<Rightarrow> ustr" where
  \<open>object_text f =
     ascii ''{\<newline>    "id": '' @ py_encode_basestring (fund_id f) @
     ascii '',\<newline>    "name": '' @ py_encode_basestring (fund_name f) @
     ascii ''\<newline>  }''\<close>

definition array_text :: "fund list \<Rightarrow> ustr" where
  "array_text funds =
     (if funds = [] then ascii ''[]''
      else ascii ''[\<newline>  '' @ join (ascii '',\<newline>  '') (map object_text funds)
           @ ascii ''\<newline>]'')"

text \<open>The scenario as a file: the seven lines in UTF-8.\<close>

definition scenario_bytes :: bytes where
  "scenario_bytes =
     [109, 101, 116, 97, 49, 10, 109, 101, 116, 97, 50, 10, 229, 159, 186, 233, 135, 145, 231,
      162, 188, 44, 229, 159, 186, 233, 135, 145, 229, 133, 168, 231, 168, 177, 10, 48, 48,
      49, 44, 65, 108, 112, 104, 97, 32, 71, 114, 111, 119, 116, 104, 32, 70, 117, 110, 100,
      10, 44, 79, 114, 112, 104, 97, 110, 32, 70, 117, 110, 100, 10, 48, 48, 50, 44, 10, 48,
      48, 51, 44, 66, 101, 116, 97, 32, 66, 111, 110, 100, 32, 70, 117, 110, 100, 10]"

text \<open>The world after the script has run on the scenario file.\<close>

definition scenario_result :: world where
  "scenario_result =
     \<lparr>files = [CSV_PATH [] \<mapsto> scenario_bytes, JSON_PATH [] \<mapsto> scenario_json],
      dirs = {[ascii ''src''], [ascii ''src'', ascii ''data'']},
      stdout = [ReadingCsvFrom (CSV_PATH []), WritingFunds 2 (JSON_PATH []), Success]\<rparr>"


section \<open>Properties of the library functions\<close>

lemma list_index_None: "list_index xs x = None \<longleftrightarrow> x \<notin> set xs"
  by (induction xs) auto

lemma list_index_Some:
  "list_index xs x = Some i \<longleftrightarrow> i < length xs \<and> xs ! i = x \<and> (\<forall>j<i. xs ! j \<noteq> x)"
proof (induction xs arbitrary: i)
  case Nil
  then show ?case by simp
next
  case (Cons y ys)
  show ?case
  proof (cases "y = x")
    case True
    then show ?thesis by (cases i) auto
  next
    case False
    show ?thesis
    proof (cases i)
      case 0
      with False show ?thesis by auto
    next
      case (Suc k)
      have "(\<forall>j<Suc k. (y # ys) ! j \<noteq> x) \<longleftrightarrow> (\<forall>j<k. ys ! j \<noteq> x)"
        using False by (auto simp: less_Suc_eq_0_disj)
      with False Suc Cons.IH [of k] show ?thesis by auto
    qed
  qed
qed





lemma process_lines_error:
  "Reader_iternext [l] = Inl e \<Longrightarrow> l \<in> set ls \<Longrightarrow> \<exists>e'. process_lines i n acc ls = Inl e'"
proof (induction ls arbitrary: acc)
  case Nil
  then show ?case by simp
next
  case (Cons a ls)
  then show ?case 
    by (cases "Reader_iternext [a]") (auto simp: Let_def)
qed

lemmas csv_eval = Reader_iternext_def process_line_def parse_reset_def parse_add_char_def
  parse_save_field_def is_nl_def LF_def CR_def COMMA_def QUOTE_def field_limit_def

lemmas header_eval = FUND_CODE_def FUND_FULL_NAME_def strip_def isspace_def split_def


lemma accepted_iff_max: "accepted i n row \<longleftrightarrow>
   length row > max i n \<and> strip (row ! i) \<noteq> [] \<and> strip (row ! n) \<noteq> []"
  by (auto simp: accepted_def)

lemma newline_indent_eval:
  "newline_indent 0 = [10]" "newline_indent (Suc 0) = [10, 32, 32]"
  "newline_indent (Suc (Suc 0)) = [10, 32, 32, 32, 32]"
  by (simp_all add: newline_indent_def LF_def numeral_eq_Suc)

lemmas json_eval = json_dumps_def iterencode_list_def iterencode_dict_def fund_items_def
  encode_item_def py_encode_basestring_def escape_char_def newline_indent_eval hex_digit_def




lemma print_files [simp]: "files (print w m) = files w"
  and print_dirs [simp]: "dirs (print w m) = dirs w"
  and print_stdout [simp]: "stdout (print w m) = stdout w @ [m]"
  by (simp_all add: print_def)

lemma open_read_print [simp]: "open_read (print w m) p = open_read w p"
  by (simp add: open_read_def)

lemma read_lines_world:
  "read_lines big5 w p = (r, w') \<Longrightarrow> files w' = files w \<and> dirs w' = dirs w"
  by (auto simp: read_lines_def Let_def split: sum.splits option.splits)

lemmas decode_eval = cont_def readlines_def

subsection \<open>The lines \<open>readlines\<close> gives\<close>

lemma LF_not_CR [simp]: "LF \<noteq> CR" "CR \<noteq> LF"
  by (simp_all add: LF_def CR_def)







subsection \<open>The reader on one line\<close>

lemma process_chars_append:
  "process_chars r (a @ b) =
     (case process_chars r a of Inl e \<Rightarrow> Inl e | Inr r' \<Rightarrow> process_chars r' b)"
  by (induction a arbitrary: r) (auto split: sum.splits)





lemma step_EOL:
  "\<exists>r'. parse_process_char r None = Inr r' \<and>
        (r_state r' = START_RECORD \<or> r_state r' = IN_QUOTED_FIELD)"
  by (cases "r_state r") (auto simp: parse_save_field_def)

lemma iternext_single:
  "Reader_iternext [l] =
     (case process_chars parse_reset l of
        Inl e \<Rightarrow> Inl e
      | Inr r \<Rightarrow> (case parse_process_char r None of
                    Inl e \<Rightarrow> Inl e
                  | Inr r' \<Rightarrow> Inr (if r_state r' = START_RECORD then r_fields r'
                                    else r_fields (parse_save_field r'))))"
proof (cases "process_chars parse_reset l")
  case (Inl e)
  then show ?thesis by (simp add: Reader_iternext_def process_line_def)
next
  case (Inr r)
  from step_EOL [of r] obtain r' where "parse_process_char r None = Inr r'"
    "r_state r' = START_RECORD \<or> r_state r' = IN_QUOTED_FIELD" by blast
  with Inr show ?thesis by (auto simp: Reader_iternext_def process_line_def)
qed






subsection \<open>split and join\<close>

lemma split_acc_not_Nil [simp]: "split_acc sep cur s \<noteq> []"
  by (induction s arbitrary: cur) auto

lemma join_Cons: "join sep (x # xs) = (if xs = [] then x else x @ sep @ join sep xs)"
  by (cases xs) auto

lemma split_acc_join: "join [sep] (split_acc sep cur s) = cur @ s"
  by (induction s arbitrary: cur) (auto simp: join_Cons)

lemma split_acc_no_sep:
  "sep \<notin> set cur \<Longrightarrow> \<forall>h\<in>set (split_acc sep cur s). sep \<notin> set h"
proof (induction s arbitrary: cur)
  case Nil
  then show ?case by simp
next
  case (Cons c s)
  show ?case
  proof (cases "c = sep")
    case True
    with Cons.IH [of "[]"] Cons.prems show ?thesis by simp
  next
    case False
    with Cons.IH [of "cur @ [c]"] Cons.prems show ?thesis by simp
  qed
qed

lemma split_acc_length: "length (split_acc sep cur s) = Suc (count_list s sep)"
  by (induction s arbitrary: cur) auto

subsection \<open>Quoted fields\<close>

lemma in_quoted_body:
  "length g + length f \<le> field_limit \<Longrightarrow>
   process_chars \<lparr>r_state = IN_QUOTED_FIELD, r_fields = fs, r_field = g\<rparr>
      (concat (map (\<lambda>c. if c = QUOTE then [QUOTE, QUOTE] else [c]) f)) =
   Inr \<lparr>r_state = IN_QUOTED_FIELD, r_fields = fs, r_field = g @ f\<rparr>"
  by (induction f arbitrary: g) (auto simp: parse_add_char_def)

lemma QUOTE_facts [simp]: "\<not> is_nl QUOTE" "QUOTE \<noteq> COMMA" "\<not> is_nl COMMA" "is_nl LF"
  "LF \<noteq> COMMA" "LF \<noteq> QUOTE" "COMMA \<noteq> QUOTE"
  by (simp_all add: is_nl_def QUOTE_def COMMA_def LF_def CR_def)

lemma quoted_field_read:
  assumes "length f \<le> field_limit" and "st = START_FIELD \<or> st = START_RECORD"
  shows "process_chars \<lparr>r_state = st, r_fields = fs, r_field = []\<rparr> (quote_field f) =
         Inr \<lparr>r_state = QUOTE_IN_QUOTED_FIELD, r_fields = fs, r_field = f\<rparr>"
proof -
  have "parse_process_char \<lparr>r_state = st, r_fields = fs, r_field = []\<rparr> (Some QUOTE) =
        Inr \<lparr>r_state = IN_QUOTED_FIELD, r_fields = fs, r_field = []\<rparr>"
    using assms(2) by auto
  moreover have "parse_process_char \<lparr>r_state = IN_QUOTED_FIELD, r_fields = fs, r_field = f\<rparr>
        (Some QUOTE) = Inr \<lparr>r_state = QUOTE_IN_QUOTED_FIELD, r_fields = fs, r_field = f\<rparr>"
    by simp
  ultimately show ?thesis
    using in_quoted_body [of "[]" f fs] assms(1)
    by (simp add: quote_field_def process_chars_append)
qed

lemma quoted_fields_read:
  assumes "\<forall>f\<in>set (f0 # fs). length f \<le> field_limit"
    and "st = START_FIELD \<or> st = START_RECORD"
  shows "process_chars \<lparr>r_state = st, r_fields = acc, r_field = []\<rparr>
           (join [COMMA] (map quote_field (f0 # fs)) @ [LF]) =
         Inr \<lparr>r_state = EAT_CRNL, r_fields = acc @ f0 # fs, r_field = []\<rparr>"
  using assms
proof (induction fs arbitrary: f0 acc st)
  case Nil
  then show ?case
    by (simp add: process_chars_append quoted_field_read parse_save_field_def)
next
  case (Cons f1 fs)
  have "process_chars \<lparr>r_state = START_FIELD, r_fields = acc @ [f0], r_field = []\<rparr>
           (join [COMMA] (map quote_field (f1 # fs)) @ [LF]) =
         Inr \<lparr>r_state = EAT_CRNL, r_fields = (acc @ [f0]) @ f1 # fs, r_field = []\<rparr>"
    using Cons.prems(1) by (intro Cons.IH) auto
  then show ?case
    using Cons.prems
    by (simp add: process_chars_append quoted_field_read parse_save_field_def)
qed

lemma quoted_row_read:
  assumes "fs \<noteq> []" and "\<forall>f\<in>set fs. length f \<le> field_limit"
  shows "Reader_iternext [join [COMMA] (map quote_field fs) @ [LF]] = Inr fs"
proof -
  from assms(1) obtain f0 fs' where fs: "fs = f0 # fs'" by (cases fs) auto
  from quoted_fields_read [of f0 fs' START_RECORD "[]"] assms(2)
  show ?thesis
    by (simp add: fs iternext_single parse_reset_def)
qed

lemma process_lines_single:
  "process_lines i n funds [line] = Inr funds' \<Longrightarrow> funds' \<noteq> funds \<Longrightarrow>
   \<exists>row. Reader_iternext [line] = Inr row \<and> max i n < length row"
  by (cases "Reader_iternext [line]") (auto simp: Let_def split: if_splits)

subsection \<open>Rows as a writer writes them\<close>

lemma in_field_body:
  assumes "plain_field f" and "length g + length f \<le> field_limit"
  shows "process_chars \<lparr>r_state = IN_FIELD, r_fields = fs, r_field = g\<rparr> f =
         Inr \<lparr>r_state = IN_FIELD, r_fields = fs, r_field = g @ f\<rparr>"
  using assms
  by (induction f arbitrary: g) (auto simp: parse_add_char_def plain_field_def)

lemma plain_field_read:
  assumes "plain_field f" and "length f \<le> field_limit" and "f \<noteq> []"
    and "st = START_FIELD \<or> st = START_RECORD"
  shows "process_chars \<lparr>r_state = st, r_fields = fs, r_field = []\<rparr> f =
         Inr \<lparr>r_state = IN_FIELD, r_fields = fs, r_field = f\<rparr>"
proof -
  from assms(3) obtain c cs where f: "f = c # cs" by (cases f) auto
  with assms(1) have c: "c \<noteq> COMMA" "c \<noteq> QUOTE" "\<not> is_nl c" and cs: "plain_field cs"
    by (auto simp: plain_field_def)
  have "parse_process_char \<lparr>r_state = st, r_fields = fs, r_field = []\<rparr> (Some c) =
        Inr \<lparr>r_state = IN_FIELD, r_fields = fs, r_field = [c]\<rparr>"
    using assms(4) c by (auto simp: parse_add_char_def field_limit_def)
  moreover have "process_chars \<lparr>r_state = IN_FIELD, r_fields = fs, r_field = [c]\<rparr> cs =
         Inr \<lparr>r_state = IN_FIELD, r_fields = fs, r_field = [c] @ cs\<rparr>"
    using cs assms(2) by (intro in_field_body) (simp_all add: f)
  ultimately show ?thesis by (simp add: f)
qed

text \<open>A written field and the separator behind it: the field is saved as it was.\<close>

lemma written_field_comma:
  assumes "length f \<le> field_limit" and "st = START_FIELD \<or> st = START_RECORD"
  shows "process_chars \<lparr>r_state = st, r_fields = fs, r_field = []\<rparr> (write_field f @ [COMMA]) =
         Inr \<lparr>r_state = START_FIELD, r_fields = fs @ [f], r_field = []\<rparr>"
proof (cases "plain_field f")
  case False
  then show ?thesis
    using assms
    by (simp add: write_field_def process_chars_append quoted_field_read parse_save_field_def)
next
  case True
  show ?thesis
  proof (cases "f = []")
    case True
    then show ?thesis
      using assms(2) by (auto simp: write_field_def plain_field_def parse_save_field_def)
  next
    case False
    with True assms show ?thesis
      by (simp add: write_field_def process_chars_append plain_field_read parse_save_field_def)
  qed
qed

lemma written_field_newline:
  assumes "length f \<le> field_limit" and "st = START_FIELD \<or> (st = START_RECORD \<and> f \<noteq> [])"
  shows "process_chars \<lparr>r_state = st, r_fields = fs, r_field = []\<rparr> (write_field f @ [LF]) =
         Inr \<lparr>r_state = EAT_CRNL, r_fields = fs @ [f], r_field = []\<rparr>"
proof (cases "plain_field f")
  case False
  then show ?thesis
    using assms
    by (auto simp: write_field_def process_chars_append quoted_field_read parse_save_field_def)
next
  case True
  show ?thesis
  proof (cases "f = []")
    case True
    then show ?thesis
      using assms(2) by (auto simp: write_field_def plain_field_def parse_save_field_def)
  next
    case False
    with True assms show ?thesis
      by (auto simp: write_field_def process_chars_append plain_field_read parse_save_field_def)
  qed
qed

lemma written_fields_read:
  assumes "\<forall>f\<in>set (f0 # fs). length f \<le> field_limit"
    and "st = START_FIELD \<or> (st = START_RECORD \<and> f0 # fs \<noteq> [[]])"
  shows "process_chars \<lparr>r_state = st, r_fields = acc, r_field = []\<rparr>
           (join [COMMA] (map write_field (f0 # fs)) @ [LF]) =
         Inr \<lparr>r_state = EAT_CRNL, r_fields = acc @ f0 # fs, r_field = []\<rparr>"
  using assms
proof (induction fs arbitrary: f0 acc st)
  case Nil
  then have "st = START_FIELD \<or> (st = START_RECORD \<and> f0 \<noteq> [])" by auto
  with Nil.prems(1) written_field_newline [of f0 st acc] show ?case by simp
next
  case (Cons f1 fs)
  from Cons.prems have st: "st = START_FIELD \<or> st = START_RECORD" by auto
  have 1: "process_chars \<lparr>r_state = st, r_fields = acc, r_field = []\<rparr> (write_field f0 @ [COMMA]) =
         Inr \<lparr>r_state = START_FIELD, r_fields = acc @ [f0], r_field = []\<rparr>"
    using Cons.prems(1) st by (intro written_field_comma) auto
  have 2: "process_chars \<lparr>r_state = START_FIELD, r_fields = acc @ [f0], r_field = []\<rparr>
           (join [COMMA] (map write_field (f1 # fs)) @ [LF]) =
         Inr \<lparr>r_state = EAT_CRNL, r_fields = (acc @ [f0]) @ f1 # fs, r_field = []\<rparr>"
    using Cons.prems(1) by (intro Cons.IH) auto
  define T where "T = join [COMMA] (map write_field (f1 # fs)) @ [LF]"
  have eq: "join [COMMA] (map write_field (f0 # f1 # fs)) @ [LF] = (write_field f0 @ [COMMA]) @ T"
    by (simp add: T_def)
  show ?case
    by (subst eq, subst process_chars_append, subst 1) (use 2 in \<open>simp add: T_def\<close>)
qed

lemma written_row_read:
  assumes "fs \<noteq> []" and "fs \<noteq> [[]]" and "\<forall>f\<in>set fs. length f \<le> field_limit"
  shows "Reader_iternext [join [COMMA] (map write_field fs) @ [LF]] = Inr fs"
proof -
  from assms(1) obtain f0 fs' where fs: "fs = f0 # fs'" by (cases fs) auto
  have "process_chars \<lparr>r_state = START_RECORD, r_fields = [], r_field = []\<rparr>
           (join [COMMA] (map write_field (f0 # fs')) @ [LF]) =
         Inr \<lparr>r_state = EAT_CRNL, r_fields = [] @ f0 # fs', r_field = []\<rparr>"
    using assms(2,3) unfolding fs by (intro written_fields_read) auto
  then show ?thesis
    unfolding fs iternext_single parse_reset_def by simp
qed

subsection \<open>Directories and files\<close>

lemma mkdir_Inr:
  "mkdir w p = Inr w' \<Longrightarrow>
   w' = w\<lparr>dirs := insert p (dirs w)\<rparr> \<and> \<not> exists_path w p \<and> isdir w (butlast p)"
  by (auto simp: mkdir_def split: if_splits)

lemma mkdir_exists: "mkdir w p = Inl FileExistsError \<longleftrightarrow> exists_path w p"
  by (auto simp: mkdir_def)

lemma exists_path_mono:
  "exists_path w p \<Longrightarrow> dirs w \<subseteq> dirs w' \<Longrightarrow> files w' = files w \<Longrightarrow> exists_path w' p"
  by (auto simp: exists_path_def)

lemma take_butlast_prefix: "\<exists>j. take k (butlast p) = take j p"
proof
  show "take k (butlast p) = take (min k (length p - 1)) p"
    by (simp add: butlast_conv_take)
qed

lemma makedirs_unfold:
  "makedirs w p = Inr w' \<longleftrightarrow>
   (\<exists>w1. (if p \<noteq> [] \<and> butlast p \<noteq> [] \<and> \<not> exists_path w (butlast p)
          then (case makedirs w (butlast p) of
                  Inl e \<Rightarrow> if e = FileExistsError then Inr w else Inl e
                | Inr w1 \<Rightarrow> Inr w1)
          else Inr w) = Inr w1 \<and>
         (case mkdir w1 p of
            Inl e \<Rightarrow> if isdir w1 p then Inr w1 else Inl e
          | Inr w2 \<Rightarrow> Inr w2) = Inr w')"
  (is "_ \<longleftrightarrow> (\<exists>w1. ?pre = Inr w1 \<and> ?fin w1)")
proof -
  have "makedirs w p = (case ?pre of Inl e \<Rightarrow> Inl e
          | Inr w1 \<Rightarrow> (case mkdir w1 p of
            Inl e \<Rightarrow> if isdir w1 p then Inr w1 else Inl e
          | Inr w2 \<Rightarrow> Inr w2))"
    by (rule makedirs.simps)
  then show ?thesis by (cases ?pre) simp_all
qed

lemma mkdir_step:
  assumes "(case mkdir w1 p of
            Inl e \<Rightarrow> if isdir w1 p then Inr w1 else Inl e
          | Inr w2 \<Rightarrow> Inr w2) = Inr w'"
  shows "files w' = files w1 \<and> stdout w' = stdout w1 \<and> isdir w' p \<and>
         (dirs w' = dirs w1 \<or> dirs w' = insert p (dirs w1))"
proof (cases "mkdir w1 p")
  case (Inl e)
  with assms show ?thesis by (auto split: if_splits)
next
  case (Inr w2)
  with assms mkdir_Inr [OF Inr] show ?thesis by (auto simp: isdir_def)
qed

lemma makedirs_frame:
  "makedirs w p = Inr w' \<Longrightarrow>
   files w' = files w \<and> stdout w' = stdout w \<and> dirs w \<subseteq> dirs w' \<and>
   (\<forall>q\<in>dirs w'. q \<in> dirs w \<or> (\<exists>k. q = take k p)) \<and> isdir w' p"
proof (induction w p arbitrary: w' rule: makedirs.induct)
  case (1 w p)
  let ?c = "p \<noteq> [] \<and> butlast p \<noteq> [] \<and> \<not> exists_path w (butlast p)"
  from "1.prems" obtain w1 where
    pre: "(if ?c then (case makedirs w (butlast p) of
                    Inl e \<Rightarrow> if e = FileExistsError then Inr w else Inl e
                  | Inr w1 \<Rightarrow> Inr w1) else Inr w) = Inr w1"
    and fin: "(case mkdir w1 p of
                Inl e \<Rightarrow> if isdir w1 p then Inr w1 else Inl e
              | Inr w2 \<Rightarrow> Inr w2) = Inr w'"
    unfolding makedirs_unfold by blast
  have P: "files w1 = files w \<and> stdout w1 = stdout w \<and> dirs w \<subseteq> dirs w1 \<and>
              (\<forall>x\<in>dirs w1. x \<in> dirs w \<or> (\<exists>k. x = take k p))"
  proof (cases "?c \<and> makedirs w (butlast p) = Inr w1")
    case True
    then have c: ?c and r: "makedirs w (butlast p) = Inr w1" by blast+
    from "1.IH" [OF c r]
    have a: "files w1 = files w" "stdout w1 = stdout w" "dirs w \<subseteq> dirs w1"
      and b: "\<forall>x\<in>dirs w1. x \<in> dirs w \<or> (\<exists>k. x = take k (butlast p))" by blast+
    have "x \<in> dirs w \<or> (\<exists>j. x = take j p)" if "x \<in> dirs w1" for x
    proof -
      from b that have "x \<in> dirs w \<or> (\<exists>k. x = take k (butlast p))" by blast
      then show ?thesis using take_butlast_prefix [of _ p] by metis
    qed
    with a show ?thesis by blast
  next
    case False
    with pre have "w1 = w" by (auto split: if_splits sum.splits)
    then show ?thesis by simp
  qed
  from mkdir_step [OF fin] have m: "files w' = files w1" "stdout w' = stdout w1" "isdir w' p"
    "dirs w' = dirs w1 \<or> dirs w' = insert p (dirs w1)" by blast+
  have "p = take (length p) p" by simp
  then have pk: "\<exists>k. p = take k p" by blast
  from m(4) P pk have "dirs w \<subseteq> dirs w'" and
    "\<forall>q\<in>dirs w'. q \<in> dirs w \<or> (\<exists>k. q = take k p)" by auto
  with m P show ?case by simp
qed

lemma makedirs_existing:
  assumes "isdir w p" and "p = [] \<or> butlast p = [] \<or> exists_path w (butlast p)"
  shows "makedirs w p = Inr w"
proof -
  from assms(1) have "exists_path w p" by (auto simp: isdir_def exists_path_def)
  then have "mkdir w p = Inl FileExistsError" by (simp add: mkdir_exists)
  with assms show ?thesis
    unfolding makedirs_unfold by auto
qed

lemma makedirs_exists_error:
  assumes "makedirs w p = Inl FileExistsError"
  shows "files w p \<noteq> None"
proof -
  let ?pre = "(if p \<noteq> [] \<and> butlast p \<noteq> [] \<and> \<not> exists_path w (butlast p)
            then (case makedirs w (butlast p) of
                    Inl e \<Rightarrow> if e = FileExistsError then Inr w else Inl e
                  | Inr w1 \<Rightarrow> Inr w1)
            else Inr w)"
  have eq: "makedirs w p = (case ?pre of Inl e \<Rightarrow> Inl e
          | Inr w1 \<Rightarrow> (case mkdir w1 p of
            Inl e \<Rightarrow> if isdir w1 p then Inr w1 else Inl e
          | Inr w2 \<Rightarrow> Inr w2))"
    by (rule makedirs.simps)
  have pre_cases: "(\<exists>e. ?pre = Inl e \<and> e \<noteq> FileExistsError) \<or> (\<exists>w1. ?pre = Inr w1 \<and> files w1 = files w)"
  proof (cases "makedirs w (butlast p)")
    case (Inl e)
    then show ?thesis by auto
  next
    case (Inr w2)
    with makedirs_frame [OF Inr] show ?thesis by auto
  qed
  then show ?thesis
  proof
    assume "\<exists>e. ?pre = Inl e \<and> e \<noteq> FileExistsError"
    then obtain e where "?pre = Inl e" "e \<noteq> FileExistsError" by blast
    with eq assms show ?thesis by simp
  next
    assume "\<exists>w1. ?pre = Inr w1 \<and> files w1 = files w"
    then obtain w1 where p1: "?pre = Inr w1" and f: "files w1 = files w" by blast
    with eq assms have fin: "(case mkdir w1 p of
            Inl e \<Rightarrow> if isdir w1 p then Inr w1 else Inl e
          | Inr w2 \<Rightarrow> Inr w2) = Inl FileExistsError" by simp
    then have "mkdir w1 p = Inl FileExistsError" and "\<not> isdir w1 p"
      by (auto split: sum.splits if_splits)
    then have "exists_path w1 p" and "\<not> isdir w1 p" by (simp_all add: mkdir_exists)
    with f show ?thesis by (auto simp: exists_path_def isdir_def)
  qed
qed

lemma makedirs_parent:
  assumes "makedirs w p = Inr w'"
  shows "p = [] \<or> butlast p = [] \<or> exists_path w' (butlast p)"
proof (cases "p \<noteq> [] \<and> butlast p \<noteq> [] \<and> \<not> exists_path w (butlast p)")
  case False
  from makedirs_frame [OF assms] have "dirs w \<subseteq> dirs w'" "files w' = files w" by auto
  with False exists_path_mono [of w "butlast p" w'] show ?thesis by auto
next
  case True
  from assms obtain w1 where
    pre: "(case makedirs w (butlast p) of
                    Inl e \<Rightarrow> if e = FileExistsError then Inr w else Inl e
                  | Inr w1 \<Rightarrow> Inr w1) = Inr w1"
    and fin: "(case mkdir w1 p of
                Inl e \<Rightarrow> if isdir w1 p then Inr w1 else Inl e
              | Inr w2 \<Rightarrow> Inr w2) = Inr w'"
    unfolding makedirs_unfold using True by auto
  have "makedirs w (butlast p) = Inr w1"
  proof (cases "makedirs w (butlast p)")
    case (Inl e)
    with pre have "e = FileExistsError" by (auto split: if_splits)
    with Inl makedirs_exists_error have "files w (butlast p) \<noteq> None" by blast
    with True show ?thesis by (simp add: exists_path_def)
  next
    case (Inr w2)
    with pre show ?thesis by simp
  qed
  from makedirs_frame [OF this] have d1: "isdir w1 (butlast p)" by blast
  from mkdir_step [OF fin] have "dirs w1 \<subseteq> dirs w'" by auto
  with d1 show ?thesis by (auto simp: isdir_def exists_path_def)
qed

subsection \<open>UTF-8\<close>

lemma utf8_decode_2:
  assumes "194 \<le> b0" "b0 \<le> 223" "cont b1"
  shows "utf8_decode (b0 # b1 # rest) =
         map_option ((#) ((b0 - 192) * 64 + (b1 - 128))) (utf8_decode rest)"
  using assms by simp

lemma utf8_decode_3:
  assumes "224 \<le> b0" "b0 \<le> 239" "cont b1" "cont b2"
    and "b0 = 224 \<Longrightarrow> 160 \<le> b1" and "b0 = 237 \<Longrightarrow> b1 \<le> 159"
  shows "utf8_decode (b0 # b1 # b2 # rest) =
         map_option ((#) ((b0 - 224) * 4096 + (b1 - 128) * 64 + (b2 - 128))) (utf8_decode rest)"
  using assms by simp

lemma utf8_decode_4:
  assumes "240 \<le> b0" "b0 \<le> 244" "cont b1" "cont b2" "cont b3"
    and "b0 = 240 \<Longrightarrow> 144 \<le> b1" and "b0 = 244 \<Longrightarrow> b1 \<le> 143"
  shows "utf8_decode (b0 # b1 # b2 # b3 # rest) =
         map_option ((#) ((b0 - 240) * 262144 + (b1 - 128) * 4096 + (b2 - 128) * 64 + (b3 - 128)))
           (utf8_decode rest)"
  using assms by simp

lemma cont_mod: "cont (128 + x mod 64)"
proof -
  have "x mod 64 < 64" by simp
  then show ?thesis unfolding cont_def by linarith
qed


lemma utf8_char_roundtrip:
  assumes "utf8_encode_char c = Some bs"
  shows "utf8_decode (bs @ rest) = map_option ((#) c) (utf8_decode rest)"
proof -
  define c0 where "c0 = c mod 64"
  define q1 where "q1 = c div 64"
  define c1 where "c1 = q1 mod 64"
  define q2 where "q2 = q1 div 64"
  define c2 where "c2 = q2 mod 64"
  define q3 where "q3 = q2 div 64"
  have d0: "c = q1 * 64 + c0" "c0 < 64" by (simp_all add: c0_def q1_def)
  have d1: "q1 = q2 * 64 + c1" "c1 < 64" by (simp_all add: c1_def q2_def)
  have d2: "q2 = q3 * 64 + c2" "c2 < 64" by (simp_all add: c2_def q3_def)
  have e2: "c div 4096 = q2" unfolding q2_def q1_def by (simp add: div_mult2_eq)
  have e3: "c div 262144 = q3" unfolding q3_def q2_def q1_def by (simp add: div_mult2_eq)
  consider "c < 128" | "128 \<le> c" "c < 2048" | "2048 \<le> c" "c < 65536" | "65536 \<le> c" "c < 1114112"
    | "1114112 \<le> c" by linarith
  then show ?thesis
  proof cases
    case 1
    with assms show ?thesis by (auto simp: utf8_encode_char_def)
  next
    case 2
    define b0 where "b0 = 192 + q1"
    define b1 where "b1 = 128 + c0"
    from 2 assms have bs: "bs = [b0, b1]"
      by (auto simp: utf8_encode_char_def b0_def b1_def q1_def c0_def)
    have r: "194 \<le> b0" "b0 \<le> 223" using 2 d0 unfolding b0_def by linarith+
    have k1: "cont b1" unfolding b1_def c0_def by (rule cont_mod)
    have v: "(b0 - 192) * 64 + (b1 - 128) = c" unfolding b0_def b1_def using d0 by simp
    show ?thesis unfolding bs using utf8_decode_2 [OF r k1, of rest] v by simp
  next
    case 3
    define b0 where "b0 = 224 + q2"
    define b1 where "b1 = 128 + c1"
    define b2 where "b2 = 128 + c0"
    from 3 assms have ns: "\<not> (55296 \<le> c \<and> c \<le> 57343)"
      and bs: "bs = [224 + c div 4096, 128 + (c div 64) mod 64, 128 + c mod 64]"
      by (auto simp: utf8_encode_char_def split: if_splits)
    have bs: "bs = [b0, b1, b2]"
      unfolding bs b0_def b1_def b2_def e2 c1_def q1_def c0_def by simp
    have r: "224 \<le> b0" "b0 \<le> 239" using 3 d0 d1 unfolding b0_def by linarith+
    have k1: "cont b1" and k2: "cont b2" unfolding b1_def b2_def c1_def c0_def by (rule cont_mod)+
    have a: "b0 = 224 \<Longrightarrow> 160 \<le> b1" using 3 d0 d1 unfolding b0_def b1_def by linarith
    have b: "b0 = 237 \<Longrightarrow> b1 \<le> 159" using 3 ns d0 d1 unfolding b0_def b1_def by linarith
    have v: "(b0 - 224) * 4096 + (b1 - 128) * 64 + (b2 - 128) = c"
      unfolding b0_def b1_def b2_def using d0 d1 by simp
    show ?thesis unfolding bs using utf8_decode_3 [OF r k1 k2 a b, of rest] v by simp
  next
    case 4
    define b0 where "b0 = 240 + q3"
    define b1 where "b1 = 128 + c2"
    define b2 where "b2 = 128 + c1"
    define b3 where "b3 = 128 + c0"
    from 4 assms have bs: "bs = [240 + c div 262144, 128 + (c div 4096) mod 64,
         128 + (c div 64) mod 64, 128 + c mod 64]"
      by (auto simp: utf8_encode_char_def split: if_splits)
    have bs: "bs = [b0, b1, b2, b3]"
      unfolding bs b0_def b1_def b2_def b3_def e2 e3 c2_def c1_def q1_def c0_def by simp
    have r: "240 \<le> b0" "b0 \<le> 244" using 4 d0 d1 d2 unfolding b0_def by linarith+
    have k1: "cont b1" and k2: "cont b2" and k3: "cont b3"
      unfolding b1_def b2_def b3_def c2_def c1_def c0_def by (rule cont_mod)+
    have a: "b0 = 240 \<Longrightarrow> 144 \<le> b1" using 4 d0 d1 d2 unfolding b0_def b1_def by linarith
    have b: "b0 = 244 \<Longrightarrow> b1 \<le> 143" using 4 d0 d1 d2 unfolding b0_def b1_def by linarith
    have v: "(b0 - 240) * 262144 + (b1 - 128) * 4096 + (b2 - 128) * 64 + (b3 - 128) = c"
      unfolding b0_def b1_def b2_def b3_def using d0 d1 d2 by simp
    show ?thesis unfolding bs using utf8_decode_4 [OF r k1 k2 k3 a b, of rest] v by simp
  next
    case 5
    with assms show ?thesis by (auto simp: utf8_encode_char_def)
  qed
qed

lemma utf8_roundtrip: "utf8_encode s = Some b \<Longrightarrow> utf8_decode b = Some s"
proof (induction s arbitrary: b)
  case Nil
  then show ?case by simp
next
  case (Cons c s)
  then obtain bs b' where c: "utf8_encode_char c = Some bs" and s: "utf8_encode s = Some b'"
    and b: "b = bs @ b'"
    by (auto split: option.splits)
  from Cons.IH [OF s] utf8_char_roundtrip [OF c, of b'] show ?case
    unfolding b by simp
qed

subsection \<open>Reading the output back\<close>

lemma scanstring_u_low:
  assumes "hex4 h1 h2 h3 h4 = Some u" and "u < 55296"
  shows "scanstring acc (92 # 117 # h1 # h2 # h3 # h4 # tail) = scanstring (acc @ [u]) tail"
proof -
  have "scanstring acc (92 # 117 # h1 # h2 # h3 # h4 # tail) =
     (case tail of
                            b # v # g1 # g2 # g3 # g4 # r'' \<Rightarrow>
                              (case hex4 g1 g2 g3 g4 of
                                 None \<Rightarrow> scanstring (acc @ [u]) tail
                               | Some u2 \<Rightarrow>
                                   if 55296 \<le> u \<and> u \<le> 56319 \<and> b = 92 \<and> v = 117
                                      \<and> 56320 \<le> u2 \<and> u2 \<le> 57343
                                   then scanstring
                                          (acc @ [65536 + (u - 55296) * 1024 + (u2 - 56320)]) r''
                                   else scanstring (acc @ [u]) tail)
                          | _ \<Rightarrow> scanstring (acc @ [u]) tail)"
    using assms(1) by (subst scanstring.simps(2)) (simp del: scanstring.simps)
  also have "\<dots> = scanstring (acc @ [u]) tail"
    using assms(2) by (simp split: list.splits option.splits del: scanstring.simps)
  finally show ?thesis .
qed


lemma hex_val_digit: "d < 16 \<Longrightarrow> hex_val (hex_digit d) = Some d"
  by (auto simp: hex_val_def hex_digit_def)

lemma hex4_low: "c < 32 \<Longrightarrow> hex4 48 48 (hex_digit (c div 16)) (hex_digit (c mod 16)) = Some c"
proof -
  assume c: "c < 32"
  then have "c div 16 < 16" by simp
  moreover have "c mod 16 < 16" by simp
  moreover have "hex_val 48 = Some 0" by (simp add: hex_val_def)
  ultimately show ?thesis by (simp add: hex4_def hex_val_digit)
qed

lemma scanstring_plain:
  "32 \<le> c \<Longrightarrow> c \<noteq> 92 \<Longrightarrow> c \<noteq> 34 \<Longrightarrow> scanstring acc (c # tail) = scanstring (acc @ [c]) tail"
  by simp

lemma scanstring_short:
  "unescape e = Some ch \<Longrightarrow> e \<noteq> 117 \<Longrightarrow>
   scanstring acc (92 # e # tail) = scanstring (acc @ [ch]) tail"
  by simp

lemma scanstring_escape:
  "scanstring acc (escape_char c @ tail) = scanstring (acc @ [c]) tail"
proof -
  consider "c = 92" | "c = 34" | "c = 8" | "c = 12" | "c = 10" | "c = 13" | "c = 9"
    | "c < 32" "c \<noteq> 8" "c \<noteq> 12" "c \<noteq> 10" "c \<noteq> 13" "c \<noteq> 9"
    | "32 \<le> c" "c \<noteq> 92" "c \<noteq> 34"
    by linarith
  then show ?thesis
  proof cases
    case 1
    then have "escape_char c = [92, 92]" by (simp add: escape_char_def)
    with 1 scanstring_short [of 92 92 acc tail] show ?thesis by (simp add: unescape_def)
  next
    case 2
    then have "escape_char c = [92, 34]" by (simp add: escape_char_def)
    with 2 scanstring_short [of 34 34 acc tail] show ?thesis by (simp add: unescape_def)
  next
    case 3
    then have "escape_char c = [92, 98]" by (simp add: escape_char_def)
    with 3 scanstring_short [of 98 8 acc tail] show ?thesis by (simp add: unescape_def)
  next
    case 4
    then have "escape_char c = [92, 102]" by (simp add: escape_char_def)
    with 4 scanstring_short [of 102 12 acc tail] show ?thesis by (simp add: unescape_def)
  next
    case 5
    then have "escape_char c = [92, 110]" by (simp add: escape_char_def)
    with 5 scanstring_short [of 110 10 acc tail] show ?thesis by (simp add: unescape_def)
  next
    case 6
    then have "escape_char c = [92, 114]" by (simp add: escape_char_def)
    with 6 scanstring_short [of 114 13 acc tail] show ?thesis by (simp add: unescape_def)
  next
    case 7
    then have "escape_char c = [92, 116]" by (simp add: escape_char_def)
    with 7 scanstring_short [of 116 9 acc tail] show ?thesis by (simp add: unescape_def)
  next
    case 8
    then have e: "escape_char c = [92, 117, 48, 48, hex_digit (c div 16), hex_digit (c mod 16)]"
      by (simp add: escape_char_def)
    from 8 have "c < 55296" by simp
    from scanstring_u_low [OF hex4_low [OF 8(1)] this] show ?thesis
      unfolding e by (simp del: scanstring.simps)
  next
    case 9
    then have "escape_char c = [c]" by (simp add: escape_char_def)
    with 9 scanstring_plain [of c acc tail] show ?thesis by (simp del: scanstring.simps)
  qed
qed

lemma scanstring_roundtrip:
  "scanstring acc (concat (map escape_char s) @ 34 # rest) = Some (acc @ s, rest)"
proof (induction s arbitrary: acc)
  case Nil
  show ?case by simp
next
  case (Cons c s)
  have "scanstring acc (concat (map escape_char (c # s)) @ 34 # rest) =
        scanstring acc (escape_char c @ (concat (map escape_char s) @ 34 # rest))" by simp
  also have "\<dots> = scanstring (acc @ [c]) (concat (map escape_char s) @ 34 # rest)"
    by (rule scanstring_escape)
  also have "\<dots> = Some ((acc @ [c]) @ s, rest)" by (rule Cons.IH)
  finally show ?case by simp
qed


declare scanstring.simps [simp del] parse_value.simps [simp del]
  parse_elements.simps [simp del] parse_members.simps [simp del]

lemma parse_string:
  "parse_value (Suc k) (34 # concat (map escape_char s) @ 34 # rest) = Some (JString s, rest)"
  using scanstring_roundtrip [of "[]" s rest] by (simp add: parse_value.simps)

lemma skip_ws_simps [simp]:
  "skip_ws [] = []"
  "skip_ws (10 # s) = skip_ws s" "skip_ws (32 # s) = skip_ws s"
  "skip_ws (34 # s) = 34 # s" "skip_ws (44 # s) = 44 # s" "skip_ws (58 # s) = 58 # s"
  "skip_ws (93 # s) = 93 # s" "skip_ws (123 # s) = 123 # s" "skip_ws (125 # s) = 125 # s"
  by (simp_all add: skip_ws_def is_ws_def)

lemma member_more:
  "parse_members (Suc (Suc k)) acc
     (34 # concat (map escape_char key) @ 34 # 58 # 32 # 34 # concat (map escape_char v) @ 34 #
      44 # 10 # 32 # 32 # 32 # 32 # 34 # tail) =
   parse_members (Suc k) (acc @ [(key, JString v)]) (34 # tail)"
proof -
  have 1: "scanstring [] (concat (map escape_char key) @ 34 # 58 # 32 # 34 #
             concat (map escape_char v) @ 34 # 44 # 10 # 32 # 32 # 32 # 32 # 34 # tail) =
           Some (key, 58 # 32 # 34 #
             concat (map escape_char v) @ 34 # 44 # 10 # 32 # 32 # 32 # 32 # 34 # tail)"
    using scanstring_roundtrip [of "[]" key] by simp
  have 2: "parse_value (Suc k) (34 # concat (map escape_char v) @ 34 #
              44 # 10 # 32 # 32 # 32 # 32 # 34 # tail) =
           Some (JString v, 44 # 10 # 32 # 32 # 32 # 32 # 34 # tail)"
    by (rule parse_string)
  show ?thesis
    by (subst parse_members.simps(2)) (simp add: 1 2)
qed

lemma member_last:
  "parse_members (Suc (Suc k)) acc
     (34 # concat (map escape_char key) @ 34 # 58 # 32 # 34 # concat (map escape_char v) @ 34 #
      10 # 32 # 32 # 125 # rest) =
   Some (JObject (acc @ [(key, JString v)]), rest)"
proof -
  have 1: "scanstring [] (concat (map escape_char key) @ 34 # 58 # 32 # 34 #
             concat (map escape_char v) @ 34 # 10 # 32 # 32 # 125 # rest) =
           Some (key, 58 # 32 # 34 #
             concat (map escape_char v) @ 34 # 10 # 32 # 32 # 125 # rest)"
    using scanstring_roundtrip [of "[]" key] by simp
  have 2: "parse_value (Suc k) (34 # concat (map escape_char v) @ 34 #
              10 # 32 # 32 # 125 # rest) =
           Some (JString v, 10 # 32 # 32 # 125 # rest)"
    by (rule parse_string)
  show ?thesis
    by (subst parse_members.simps(2)) (simp add: 1 2)
qed


lemma encode_key_id: \<open>py_encode_basestring (ascii ''id'') = ascii ''"id"''\<close>
  and encode_key_name: \<open>py_encode_basestring (ascii ''name'') = ascii ''"name"''\<close>
  by (simp_all add: py_encode_basestring_def escape_char_def ascii_def QUOTE_def)

lemma iterencode_dict_layout: "iterencode_dict (Suc 0) (fund_items f) = object_text f"
  by (simp add: iterencode_dict_def fund_items_def encode_item_def object_text_def
      encode_key_id encode_key_name newline_indent_eval)
     (simp add: ascii_def COMMA_def)

lemma json_dumps_layout: "json_dumps funds = array_text funds"
proof -
  have "iterencode_dict (Suc 0) \<circ> fund_items = object_text"
    by (rule ext) (simp add: iterencode_dict_layout)
  then show ?thesis
    by (simp add: json_dumps_def iterencode_list_def array_text_def newline_indent_eval)
       (simp add: ascii_def COMMA_def)
qed

lemma object_text_unfold:
  \<open>object_text f @ rest =
     123 # 10 # 32 # 32 # 32 # 32 #
       34 # concat (map escape_char (ascii ''id'')) @ 34 # 58 # 32 #
       34 # concat (map escape_char (fund_id f)) @ 34 #
       44 # 10 # 32 # 32 # 32 # 32 #
       34 # concat (map escape_char (ascii ''name'')) @ 34 # 58 # 32 #
       34 # concat (map escape_char (fund_name f)) @ 34 #
       10 # 32 # 32 # 125 # rest\<close>
  by (simp add: object_text_def py_encode_basestring_def QUOTE_def)
     (simp add: ascii_def escape_char_def)

lemma parse_object:
  "parse_value (Suc (Suc (Suc (Suc k)))) (object_text f @ rest) = Some (fund_json f, rest)"
proof -
  have "parse_value (Suc (Suc (Suc (Suc k)))) (object_text f @ rest) =
        parse_members (Suc (Suc (Suc k))) []
          (34 # concat (map escape_char (ascii ''id'')) @ 34 # 58 # 32 #
       34 # concat (map escape_char (fund_id f)) @ 34 #
       44 # 10 # 32 # 32 # 32 # 32 #
       34 # concat (map escape_char (ascii ''name'')) @ 34 # 58 # 32 #
       34 # concat (map escape_char (fund_name f)) @ 34 #
       10 # 32 # 32 # 125 # rest)"
    unfolding object_text_unfold
    by (subst parse_value.simps(2)) simp
  also have "\<dots> = parse_members (Suc (Suc k)) [(ascii ''id'', JString (fund_id f))]
       (34 # concat (map escape_char (ascii ''name'')) @ 34 # 58 # 32 #
       34 # concat (map escape_char (fund_name f)) @ 34 #
       10 # 32 # 32 # 125 # rest)"
    using member_more [of "Suc k" "[]" "ascii ''id''" "fund_id f"] by simp
  also have "\<dots> = Some (fund_json f, rest)"
    using member_last [of k "[(ascii ''id'', JString (fund_id f))]" "ascii ''name''" "fund_name f" rest]
    by (simp add: fund_json_def)
  finally show ?thesis .
qed


lemma skip_ws_bracket [simp]: "skip_ws (91 # s) = 91 # s"
  by (simp add: skip_ws_def is_ws_def)

lemma object_text_head: "\<exists>t. object_text f @ rest = 123 # t"
  using object_text_unfold [of f rest] by blast

lemma join_objects_head: "\<exists>t. join sep (map object_text (f # fs)) @ rest = 123 # t"
proof (cases fs)
  case Nil
  then show ?thesis using object_text_head [of f rest] by simp
next
  case (Cons g gs)
  then show ?thesis
    using object_text_head [of f "sep @ join sep (map object_text (g # gs)) @ rest"] by simp
qed

lemma parse_elements_objects:
  "length fs + 5 \<le> m \<Longrightarrow>
   parse_elements m acc (join [44, 10, 32, 32] (map object_text (f # fs)) @ 10 # 93 # rest) =
   Some (JArray (acc @ map fund_json (f # fs)), rest)"
proof (induction fs arbitrary: f acc m)
  case Nil
  then have "\<exists>k. m = Suc (Suc (Suc (Suc (Suc k))))"
    by (intro exI [of _ "m - 5"]) simp
  then obtain k where m: "m = Suc (Suc (Suc (Suc (Suc k))))" by blast
  show ?case
    unfolding m
    by (subst parse_elements.simps(2)) (simp add: parse_object)
next
  case (Cons g fs)
  then have "\<exists>k. m = Suc (Suc (Suc (Suc (Suc k)))) \<and> length fs < k"
    by (intro exI [of _ "m - 5"]) (simp, arith)
  then obtain k where m: "m = Suc (Suc (Suc (Suc (Suc k))))" and k: "length fs < k"
    by blast
  define T where "T = join [44, 10, 32, 32] (map object_text (g # fs)) @ 10 # 93 # rest"
  from join_objects_head [of "[44, 10, 32, 32]" g fs "10 # 93 # rest"]
  obtain t where t: "T = 123 # t" unfolding T_def by blast
  have sk: "skip_ws T = T" unfolding t by simp
  have lay: "join [44, 10, 32, 32] (map object_text (f # g # fs)) @ 10 # 93 # rest =
             object_text f @ 44 # 10 # 32 # 32 # T" by (simp add: T_def)
  have ih: "parse_elements (Suc (Suc (Suc (Suc k)))) (acc @ [fund_json f]) T =
            Some (JArray ((acc @ [fund_json f]) @ map fund_json (g # fs)), rest)"
    unfolding T_def using k by (intro Cons.IH) simp
  show ?case
    unfolding m lay
    by (subst parse_elements.simps(2)) (simp add: parse_object sk ih)
qed

lemma object_text_length: "Suc 0 \<le> length (object_text f)"
proof -
  from object_text_head [of f "[]"] obtain t where "object_text f = 123 # t" by auto
  then show ?thesis by simp
qed

lemma length_join_objects: "length fs \<le> length (join sep (map object_text fs))"
proof (induction fs)
  case Nil
  show ?case by simp
next
  case (Cons f fs)
  then show ?case
    using object_text_length [of f] by (cases fs) auto
qed

lemma json_loads_roundtrip: "json_loads (array_text funds) = Some (JArray (map fund_json funds))"
proof (cases funds)
  case Nil
  have "parse_value (Suc (Suc 0)) [91, 93] = Some (JArray [], [])"
    by (simp add: parse_value.simps)
  then show ?thesis
    by (simp add: Nil array_text_def json_loads_def ascii_def)
next
  case (Cons f fs)
  define body where "body = join [44, 10, 32, 32] (map object_text (f # fs))"
  define T where "T = body @ 10 # 93 # []"
  define n where "n = 5 + length body"
  have lay: "array_text funds = 91 # 10 # 32 # 32 # T"
    by (simp add: Cons array_text_def ascii_def T_def body_def del: join.simps)
  from join_objects_head [of "[44, 10, 32, 32]" f fs "10 # 93 # []"]
  obtain t where t: "T = 123 # t" unfolding T_def body_def by blast
  have len: "length (array_text funds) = Suc n"
    unfolding lay T_def n_def by simp
  have "length fs + 5 \<le> n"
    using length_join_objects [of "f # fs" "[44, 10, 32, 32]"] unfolding n_def body_def by simp
  then have "parse_elements n [] T = Some (JArray ([] @ map fund_json (f # fs)), [])"
    unfolding T_def body_def by (intro parse_elements_objects) simp
  then have el: "parse_elements n [] (123 # t) = Some (JArray (map fund_json (f # fs)), [])"
    unfolding t by simp
  have "parse_value (Suc n) (91 # 10 # 32 # 32 # T) =
        Some (JArray (map fund_json (f # fs)), [])"
    unfolding t by (subst parse_value.simps(2)) (simp add: el)
  moreover have "json_loads (array_text funds) =
     (case parse_value (Suc n) (skip_ws (91 # 10 # 32 # 32 # T)) of
        None \<Rightarrow> None
      | Some (v, r) \<Rightarrow> if skip_ws r = [] then Some v else None)"
    by (simp only: json_loads_def len, simp only: lay)
  ultimately show ?thesis by (simp add: Cons)
qed

subsection \<open>A successful run\<close>

lemma open_write_Inr:
  "open_write w p = Inr w' \<longleftrightarrow>
   \<not> isdir w p \<and> files w (butlast p) = None \<and> isdir w (butlast p) \<and>
   w' = w\<lparr>files := (files w)(p \<mapsto> [])\<rparr>"
  by (auto simp: open_write_def)

lemma write_json_success:
  assumes "write_json w base funds = (Inr (), w')"
  obtains w2 b where
    "makedirs (print w (WritingFunds (length funds) (JSON_PATH base))) (dirname (JSON_PATH base))
       = Inr w2"
    and "open_write w2 (JSON_PATH base) = Inr (w2\<lparr>files := (files w2)(JSON_PATH base \<mapsto> [])\<rparr>)"
    and "utf8_encode (json_dumps funds) = Some b"
    and "w' = print (w2\<lparr>files := (files w2)(JSON_PATH base \<mapsto> b)\<rparr>) Success"
proof -
  let ?w1 = "print w (WritingFunds (length funds) (JSON_PATH base))"
  from assms obtain w2 where m: "makedirs ?w1 (dirname (JSON_PATH base)) = Inr w2"
    by (cases "makedirs ?w1 (dirname (JSON_PATH base))") (auto simp: write_json_def Let_def)
  with assms have wt: "(case write_text w2 (JSON_PATH base) (json_dumps funds) of
             (Inl e, w3) \<Rightarrow> (Inl e, w3)
           | (Inr u, w3) \<Rightarrow> (Inr (), print w3 Success)) = (Inr (), w')"
    by (simp add: write_json_def Let_def)
  then obtain w3 where o: "open_write w2 (JSON_PATH base) = Inr w3"
    by (cases "open_write w2 (JSON_PATH base)") (auto simp: write_text_def)
  then have w3: "w3 = w2\<lparr>files := (files w2)(JSON_PATH base \<mapsto> [])\<rparr>"
    by (simp add: open_write_Inr)
  from wt o obtain b where e: "utf8_encode (json_dumps funds) = Some b"
    by (cases "utf8_encode (json_dumps funds)") (auto simp: write_text_def)
  from wt o e have "w' = print (w3\<lparr>files := (files w3)(JSON_PATH base \<mapsto> b)\<rparr>) Success"
    by (simp add: write_text_def)
  then have "w' = print (w2\<lparr>files := (files w2)(JSON_PATH base \<mapsto> b)\<rparr>) Success"
    by (simp add: w3)
  with m o e w3 show ?thesis using that by blast
qed

lemma process_csv_success:
  assumes "process_csv w base lines = (Inr (), w')" and "last (stdout w') = Success"
  obtains i n funds where "3 \<le> length lines"
    and "list_index (split COMMA (strip (lines ! 2))) FUND_CODE = Some i"
    and "list_index (split COMMA (strip (lines ! 2))) FUND_FULL_NAME = Some n"
    and "process_lines i n [] (drop 3 lines) = Inr funds"
    and "write_json w base funds = (Inr (), w')"
proof -
  let ?hs = "split COMMA (strip (lines ! 2))"
  have len: "3 \<le> length lines"
  proof (rule ccontr)
    assume "\<not> 3 \<le> length lines"
    with assms(1) have "w' = print w CsvTooShort" by (simp add: process_csv_def)
    with assms(2) show False by simp
  qed
  obtain i where i: "list_index ?hs FUND_CODE = Some i"
  proof (cases "list_index ?hs FUND_CODE")
    case None
    with len assms(1) have "last (stdout w') = AvailableHeaders ?hs"
      by (auto simp: process_csv_def Let_def)
    with assms(2) show ?thesis by simp
  qed auto
  obtain n where n: "list_index ?hs FUND_FULL_NAME = Some n"
  proof (cases "list_index ?hs FUND_FULL_NAME")
    case None
    with len i assms(1) have "last (stdout w') = AvailableHeaders ?hs"
      by (auto simp: process_csv_def Let_def)
    with assms(2) show ?thesis by simp
  qed auto
  from len i n assms(1) obtain funds where "process_lines i n [] (drop 3 lines) = Inr funds"
    and "write_json w base funds = (Inr (), w')"
    by (cases "process_lines i n [] (drop 3 lines)") (auto simp: process_csv_def Let_def)
  with len i n show ?thesis using that by blast
qed

lemma generate_success:
  assumes "generate_fund_list big5 base w = (Inr (), w')" and "last (stdout w') = Success"
  obtains lines w1 i n funds where
    "read_lines big5 (print w (ReadingCsvFrom (CSV_PATH base))) (CSV_PATH base) = (Inr lines, w1)"
    and "3 \<le> length lines"
    and "list_index (split COMMA (strip (lines ! 2))) FUND_CODE = Some i"
    and "list_index (split COMMA (strip (lines ! 2))) FUND_FULL_NAME = Some n"
    and "process_lines i n [] (drop 3 lines) = Inr funds"
    and "write_json w1 base funds = (Inr (), w')"
proof -
  let ?r = "read_lines big5 (print w (ReadingCsvFrom (CSV_PATH base))) (CSV_PATH base)"
  obtain res w1 where r: "?r = (res, w1)" by (cases ?r) auto
  from assms(1) have g: "(case ?r of (Inl e, w2) \<Rightarrow> (Inl e, w2)
      | (Inr lines, w2) \<Rightarrow> process_csv w2 base lines) = (Inr (), w')"
    by (simp add: generate_fund_list_def Let_def)
  obtain lines where l: "res = Inr lines"
    and p: "process_csv w1 base lines = (Inr (), w')"
  proof (cases res)
    case (Inl e)
    with g r show ?thesis by simp
  next
    case (Inr lines)
    with g r that show ?thesis by simp
  qed
  from p assms(2) obtain i n funds where "3 \<le> length lines"
    and "list_index (split COMMA (strip (lines ! 2))) FUND_CODE = Some i"
    and "list_index (split COMMA (strip (lines ! 2))) FUND_FULL_NAME = Some n"
    and "process_lines i n [] (drop 3 lines) = Inr funds"
    and "write_json w1 base funds = (Inr (), w')"
    by (rule process_csv_success)
  with r l show ?thesis by (intro that [of lines w1 i n funds]) simp_all
qed

lemma read_lines_depends:
  assumes "files v p = files w p" and "p \<in> dirs v \<longleftrightarrow> p \<in> dirs w"
  shows "fst (read_lines big5 v p) = fst (read_lines big5 w p)"
proof -
  have "open_read v p = open_read w p" using assms by (simp add: open_read_def)
  then show ?thesis
    by (auto simp: read_lines_def Let_def split: sum.splits option.splits)
qed

lemma read_lines_ok:
  "read_lines big5 w p = (Inr lines, w') \<Longrightarrow> p \<notin> dirs w \<and> files w p \<noteq> None"
  by (auto simp: read_lines_def open_read_def Let_def split: sum.splits option.splits if_splits)

lemma path_lengths:
  "length (CSV_PATH base) = length base + 4" "length (JSON_PATH base) = length base + 3"
  "length (dirname (JSON_PATH base)) = length base + 2"
  by (simp_all add: CSV_PATH_def JSON_PATH_def dirname_def)

lemma paths_differ:
  "CSV_PATH base \<noteq> JSON_PATH base" "CSV_PATH base \<noteq> take k (dirname (JSON_PATH base))"
  "dirname (JSON_PATH base) \<noteq> JSON_PATH base"
proof -
  show "CSV_PATH base \<noteq> JSON_PATH base"
  proof
    assume "CSV_PATH base = JSON_PATH base"
    then have "length (CSV_PATH base) = length (JSON_PATH base)" by simp
    then show False by (simp add: path_lengths)
  qed
  show "dirname (JSON_PATH base) \<noteq> JSON_PATH base"
  proof
    assume "dirname (JSON_PATH base) = JSON_PATH base"
    then have "length (dirname (JSON_PATH base)) = length (JSON_PATH base)" by simp
    then show False by (simp add: path_lengths)
  qed
  show "CSV_PATH base \<noteq> take k (dirname (JSON_PATH base))"
  proof
    assume "CSV_PATH base = take k (dirname (JSON_PATH base))"
    then have "length (CSV_PATH base) = length (take k (dirname (JSON_PATH base)))" by simp
    then show False by (simp add: path_lengths)
  qed
qed

subsection \<open>Running again\<close>

lemma write_json_rerun:
  assumes "write_json w base funds = (Inr (), w')"
    and "dirs v = dirs w'" and "files v = files w'"
  shows "\<exists>v'. write_json v base funds = (Inr (), v') \<and> files v' = files w' \<and>
              dirs v' = dirs w' \<and> last (stdout v') = Success"
proof -
  let ?J = "JSON_PATH base"
  let ?p = "dirname ?J"
  let ?w1 = "print w (WritingFunds (length funds) ?J)"
  let ?v1 = "print v (WritingFunds (length funds) ?J)"
  from assms(1) obtain w2 b where m: "makedirs ?w1 ?p = Inr w2"
    and o: "open_write w2 ?J = Inr (w2\<lparr>files := (files w2)(?J \<mapsto> [])\<rparr>)"
    and e: "utf8_encode (json_dumps funds) = Some b"
    and w': "w' = print (w2\<lparr>files := (files w2)(?J \<mapsto> b)\<rparr>) Success"
    by (rule write_json_success)
  have dv: "dirs ?v1 = dirs w2" and fv: "files ?v1 = (files w2)(?J \<mapsto> b)"
    using assms(2,3) by (simp_all add: w')
  from makedirs_frame [OF m] have d: "isdir w2 ?p" by blast
  from o have ow: "\<not> isdir w2 ?J" "files w2 (butlast ?J) = None" "isdir w2 (butlast ?J)"
    by (simp_all add: open_write_Inr)
  have pJ: "butlast ?J = ?p" by (simp add: dirname_def)
  have neq: "?p \<noteq> ?J" by (rule paths_differ(3))
  have d1: "isdir ?v1 ?p" using d dv by (simp add: isdir_def)
  have par: "?p = [] \<or> butlast ?p = [] \<or> exists_path ?v1 (butlast ?p)"
    using makedirs_parent [OF m] dv fv by (auto simp: exists_path_def)
  have mk: "makedirs ?v1 ?p = Inr ?v1" using d1 par by (rule makedirs_existing)
  have op: "open_write ?v1 ?J = Inr (?v1\<lparr>files := (files ?v1)(?J \<mapsto> [])\<rparr>)"
    unfolding open_write_Inr using ow dv fv neq by (simp add: isdir_def pJ)
  have "write_json v base funds =
          (Inr (), print (?v1\<lparr>files := (files ?v1)(?J \<mapsto> b)\<rparr>) Success)"
    by (simp add: write_json_def Let_def mk write_text_def op e)
  moreover have "files (print (?v1\<lparr>files := (files ?v1)(?J \<mapsto> b)\<rparr>) Success) = files w'"
    using fv by (simp add: w')
  moreover have "dirs (print (?v1\<lparr>files := (files ?v1)(?J \<mapsto> b)\<rparr>) Success) = dirs w'"
    using dv by (simp add: w')
  ultimately show ?thesis by simp
qed

lemma generate_rerun:
  assumes "generate_fund_list big5 base w = (Inr (), w')" and "last (stdout w') = Success"
  shows "\<exists>w''. generate_fund_list big5 base w' = (Inr (), w'') \<and> files w'' = files w' \<and>
               dirs w'' = dirs w' \<and> last (stdout w'') = Success"
proof -
  let ?C = "CSV_PATH base"
  let ?J = "JSON_PATH base"
  let ?p = "dirname ?J"
  let ?w0 = "print w (ReadingCsvFrom ?C)"
  let ?v0 = "print w' (ReadingCsvFrom ?C)"
  from assms obtain lines w1 i n funds where
    rd: "read_lines big5 ?w0 ?C = (Inr lines, w1)"
    and len: "3 \<le> length lines"
    and i: "list_index (split COMMA (strip (lines ! 2))) FUND_CODE = Some i"
    and n: "list_index (split COMMA (strip (lines ! 2))) FUND_FULL_NAME = Some n"
    and pl: "process_lines i n [] (drop 3 lines) = Inr funds"
    and wj: "write_json w1 base funds = (Inr (), w')"
    by (rule generate_success)
  from read_lines_ok [OF rd] have c: "?C \<notin> dirs w" by simp
  from read_lines_world [OF rd] have w1: "files w1 = files w" "dirs w1 = dirs w" by simp_all
  from wj obtain w2 b where m: "makedirs (print w1 (WritingFunds (length funds) ?J)) ?p = Inr w2"
    and w': "w' = print (w2\<lparr>files := (files w2)(?J \<mapsto> b)\<rparr>) Success"
    by (rule write_json_success)
  from makedirs_frame [OF m] have f2: "files w2 = files w"
    and d2: "\<forall>q\<in>dirs w2. q \<in> dirs w \<or> (\<exists>k. q = take k ?p)"
    by (simp_all add: w1)
  have fC: "files ?v0 ?C = files ?w0 ?C"
    using paths_differ(1) [of base] by (simp add: w' f2)
  have dC: "?C \<in> dirs ?v0 \<longleftrightarrow> ?C \<in> dirs ?w0"
    using c d2 paths_differ(2) [of base] by (auto simp: w')
  obtain res v1 where rv: "read_lines big5 ?v0 ?C = (res, v1)"
    by (cases "read_lines big5 ?v0 ?C") auto
  from read_lines_depends [OF fC dC, of big5] rd rv have res: "res = Inr lines" by simp
  from read_lines_world [OF rv] have v1: "files v1 = files w'" "dirs v1 = dirs w'" by simp_all
  have "generate_fund_list big5 base w' = process_csv v1 base lines"
    by (simp add: generate_fund_list_def Let_def rv res)
  also have "\<dots> = write_json v1 base funds"
    using len i n pl by (simp add: process_csv_def Let_def)
  finally have g: "generate_fund_list big5 base w' = write_json v1 base funds" .
  from write_json_rerun [OF wj v1(2) v1(1)] show ?thesis unfolding g .
qed

subsection \<open>The scenario as a run\<close>

lemma scenario_decode: "utf_8_sig_decode scenario_bytes = Some (concat scenario_lines)"
  by (simp add: scenario_bytes_def scenario_lines_def ascii_def cont_def FUND_CODE_def
      FUND_FULL_NAME_def COMMA_def LF_def)

lemma scenario_readlines: "readlines (concat scenario_lines) = scenario_lines"
  by (simp add: scenario_lines_def ascii_def readlines_def FUND_CODE_def FUND_FULL_NAME_def
      COMMA_def LF_def CR_def)

lemma scenario_encode: "utf8_encode scenario_json = Some scenario_json"
  by (simp add: scenario_json_def ascii_def utf8_encode_char_def)

lemma scenario_process:
  "process_csv w base scenario_lines = write_json w base scenario_funds"
proof -
  have "list_index (split COMMA (strip (scenario_lines ! 2))) FUND_CODE = Some 0"
    by (simp add: scenario_lines_def ascii_def header_eval COMMA_def LF_def)
  moreover have "list_index (split COMMA (strip (scenario_lines ! 2))) FUND_FULL_NAME = Some 1"
    by (simp add: scenario_lines_def ascii_def header_eval COMMA_def LF_def)
  moreover have "process_lines 0 1 [] (drop 3 scenario_lines) = Inr scenario_funds"
    by (simp add: scenario_lines_def scenario_funds_def ascii_def csv_eval strip_def isspace_def Let_def)
  moreover have "length scenario_lines = 7" by (simp add: scenario_lines_def)
  ultimately show ?thesis
    by (simp add: process_csv_def Let_def)
qed

lemma scenario_dumps: "json_dumps scenario_funds = scenario_json"
  by (simp add: scenario_funds_def scenario_json_def json_eval ascii_def LF_def COMMA_def QUOTE_def)

lemma scenario_makedirs:
  "makedirs \<lparr>files = [CSV_PATH [] \<mapsto> scenario_bytes], dirs = {}, stdout = out\<rparr>
     [ascii ''src'', ascii ''data''] =
   Inr \<lparr>files = [CSV_PATH [] \<mapsto> scenario_bytes],
        dirs = {[ascii ''src''], [ascii ''src'', ascii ''data'']}, stdout = out\<rparr>"
proof -
  let ?w = "\<lparr>files = [CSV_PATH [] \<mapsto> scenario_bytes], dirs = {}, stdout = out\<rparr>"
  let ?w1 = "\<lparr>files = [CSV_PATH [] \<mapsto> scenario_bytes], dirs = {[ascii ''src'']}, stdout = out\<rparr>"
  have ne: "CSV_PATH [] \<noteq> [ascii ''src'']" "CSV_PATH [] \<noteq> [ascii ''src'', ascii ''data'']"
    "CSV_PATH [] \<noteq> []"
    by (simp_all add: CSV_PATH_def)
  have 1: "makedirs ?w [ascii ''src''] = Inr ?w1"
    by (subst makedirs.simps) (simp add: exists_path_def isdir_def mkdir_def ne ne [symmetric])
  have 2: "mkdir ?w1 [ascii ''src'', ascii ''data''] =
     Inr \<lparr>files = [CSV_PATH [] \<mapsto> scenario_bytes],
        dirs = {[ascii ''src''], [ascii ''src'', ascii ''data'']}, stdout = out\<rparr>"
    by (auto simp: exists_path_def isdir_def mkdir_def ne ne [symmetric])
  show ?thesis
    by (subst makedirs.simps) (simp add: 1 2 exists_path_def ne ne [symmetric])
qed

lemma scenario_run:
  "generate_fund_list big5 [] (world_with_csv scenario_bytes) = (Inr (), scenario_result)"
proof -
  let ?W = "world_with_csv scenario_bytes"
  let ?w0 = "print ?W (ReadingCsvFrom (CSV_PATH []))"
  have rd: "read_lines big5 ?w0 (CSV_PATH []) = (Inr scenario_lines, ?w0)"
    by (simp add: read_lines_def open_read_def world_with_csv_def scenario_decode
        scenario_readlines print_def)
  have p: "dirname (JSON_PATH []) = [ascii ''src'', ascii ''data'']"
    by (simp add: dirname_def JSON_PATH_def)
  have len: "length scenario_funds = 2" by (simp add: scenario_funds_def)
  have ne: "JSON_PATH [] \<noteq> [ascii ''src'']" "JSON_PATH [] \<noteq> [ascii ''src'', ascii ''data'']"
    "JSON_PATH [] \<noteq> []" "CSV_PATH [] \<noteq> [ascii ''src'', ascii ''data'']"
    "butlast (JSON_PATH []) = [ascii ''src'', ascii ''data'']"
    by (simp_all add: JSON_PATH_def CSV_PATH_def)
  have wj: "write_json ?w0 [] scenario_funds = (Inr (), scenario_result)"
    unfolding write_json_def Let_def p len
    by (simp add: print_def world_with_csv_def scenario_makedirs write_text_def open_write_def
        isdir_def scenario_dumps scenario_encode scenario_result_def ne ne(1-4) [symmetric])
  show ?thesis
    by (simp add: generate_fund_list_def Let_def rd scenario_process wj)
qed



section \<open>The claims\<close>



text \<open>
  C2. On the seven lines of the scenario the two records 001 (Alpha Growth Fund) and 003
  (Beta Bond Fund) are written and the two rows between them are dropped; the text written
  is the JSON list of these two objects. As a run on the file that holds the seven lines
  in UTF-8, the script leaves that text in the output file, and reading the text back as
  JSON gives the list of the two objects.
\<close>

theorem scenario_output:
  "process_csv w base scenario_lines = write_json w base scenario_funds \<and>
   json_dumps scenario_funds = scenario_json \<and>
   generate_fund_list big5 [] (world_with_csv scenario_bytes) = (Inr (), scenario_result) \<and>
   files scenario_result (JSON_PATH []) = Some scenario_json \<and>
   json_loads scenario_json = Some (JArray (map fund_json scenario_funds))"
proof -
  have "json_loads scenario_json = Some (JArray (map fund_json scenario_funds))"
    using json_loads_roundtrip [of scenario_funds]
    by (simp add: json_dumps_layout [symmetric] scenario_dumps)
  moreover have "files scenario_result (JSON_PATH []) = Some scenario_json"
    by (simp add: scenario_result_def)
  ultimately show ?thesis
    by (simp add: scenario_process scenario_dumps scenario_run)
qed

text \<open>
  C3. When the source has fewer than three lines, or the header line lacks one of the two
  column names, the script returns without an exception and leaves every file and
  directory as it was: the output file is neither created nor changed. With a header
  line lacking a name, the last thing printed is the list of the headers that are there.
\<close>

theorem early_return_leaves_output:
  assumes "read_lines big5 (print w (ReadingCsvFrom (CSV_PATH base))) (CSV_PATH base)
             = (Inr lines, w2)"
    and "headers = split COMMA (strip (lines ! 2))"
    and "length lines < 3 \<or> FUND_CODE \<notin> set headers \<or> FUND_FULL_NAME \<notin> set headers"
  shows "\<exists>w'. generate_fund_list big5 base w = (Inr (), w') \<and>
           files w' = files w \<and> dirs w' = dirs w \<and>
           (if length lines < 3 then stdout w' = stdout w2 @ [CsvTooShort]
            else \<exists>name. stdout w' =
                   stdout w2 @ [ErrorFindingHeaders name, AvailableHeaders headers])"
proof -
  from read_lines_world [OF assms(1)]
  have w2: "files w2 = files w" "dirs w2 = dirs w" by simp_all
  have gen: "generate_fund_list big5 base w = process_csv w2 base lines"
    using assms(1) by (simp add: generate_fund_list_def Let_def)
  show ?thesis
  proof (cases "length lines < 3")
    case True
    then show ?thesis using gen w2 by (simp add: process_csv_def)
  next
    case False
    with assms(3) have "FUND_CODE \<notin> set headers \<or> FUND_FULL_NAME \<notin> set headers" by simp
    then have "list_index headers FUND_CODE = None \<or>
               (\<exists>i. list_index headers FUND_CODE = Some i \<and> list_index headers FUND_FULL_NAME = None)"
      using list_index_None [of headers FUND_CODE] list_index_None [of headers FUND_FULL_NAME]
      by (cases "list_index headers FUND_CODE") auto
    then show ?thesis
      using False gen w2 unfolding assms(2)
      by (auto simp: process_csv_def Let_def)
  qed
qed

theorem early_return_leaves_output_witness:
  "(\<exists>w'. generate_fund_list (\<lambda>b. None) [] (world_with_csv no_header_bytes) = (Inr (), w') \<and>
      files w' = files (world_with_csv no_header_bytes) \<and> dirs w' = {} \<and>
      (\<exists>name. stdout w' = [ReadingCsvFrom (CSV_PATH []), ErrorFindingHeaders name,
         AvailableHeaders [ascii ''code'', ascii ''name'']])) \<and>
   (\<exists>w'. generate_fund_list (\<lambda>b. None) [] (world_with_csv too_short_bytes) = (Inr (), w') \<and>
      files w' = files (world_with_csv too_short_bytes) \<and> dirs w' = {} \<and>
      stdout w' = [ReadingCsvFrom (CSV_PATH []), CsvTooShort])"
proof -
  let ?w = "world_with_csv no_header_bytes"
  let ?ls = "[ascii ''m\<newline>'', ascii ''m\<newline>'', ascii ''code,name\<newline>'', ascii ''1,x\<newline>'']"
  let ?hs = "[ascii ''code'', ascii ''name'']"
  have 1: "read_lines (\<lambda>b. None) (print ?w (ReadingCsvFrom (CSV_PATH []))) (CSV_PATH [])
             = (Inr ?ls, print ?w (ReadingCsvFrom (CSV_PATH [])))"
    by (simp add: read_lines_def open_read_def world_with_csv_def no_header_bytes_def
        ascii_def decode_eval LF_def CR_def)
  have 2: "?hs = split COMMA (strip (?ls ! 2))"
    by (simp add: ascii_def header_eval COMMA_def)
  have 3: "length ?ls < 3 \<or> FUND_CODE \<notin> set ?hs \<or> FUND_FULL_NAME \<notin> set ?hs"
    by (simp add: ascii_def FUND_CODE_def)
  let ?v = "world_with_csv too_short_bytes"
  let ?ks = "[ascii ''a\<newline>'', ascii ''b'']"
  have 4: "read_lines (\<lambda>b. None) (print ?v (ReadingCsvFrom (CSV_PATH []))) (CSV_PATH [])
             = (Inr ?ks, print ?v (ReadingCsvFrom (CSV_PATH [])))"
    by (simp add: read_lines_def open_read_def world_with_csv_def too_short_bytes_def
        ascii_def decode_eval LF_def CR_def)
  have 5: "length ?ks < 3 \<or> FUND_CODE \<notin> set (split COMMA (strip (?ks ! 2))) \<or>
           FUND_FULL_NAME \<notin> set (split COMMA (strip (?ks ! 2)))"
    by simp
  from early_return_leaves_output [OF 1 2 3] early_return_leaves_output [OF 4 refl 5]
  show ?thesis
    by (simp add: world_with_csv_def)
qed



text \<open>
  C5. The header line, trimmed, is cut at every comma, whether or not the comma stands
  between quotes: the pieces hold no comma, there is one more piece than there are commas,
  and joined by commas they give the header line back. The two column indices are
  positions of the exact names among these pieces. A data line goes through the CSV
  reader, which gives back the fields of a row whatever commas and quotes they hold, both
  when every field is written between quotes and when only the fields that need it are.
  A row with no more fields than the larger of the two indices adds no record.
\<close>

theorem header_split_and_row_parsing:
  assumes "3 \<le> length lines"
    and "header_line = strip (lines ! 2)"
    and "headers = split COMMA header_line"
    and "list_index headers FUND_CODE = Some i"
    and "list_index headers FUND_FULL_NAME = Some n"
  shows "join [COMMA] headers = header_line \<and>
         (\<forall>h\<in>set headers. COMMA \<notin> set h) \<and>
         length headers = Suc (count_list header_line COMMA) \<and>
         headers ! i = FUND_CODE \<and> headers ! n = FUND_FULL_NAME \<and>
         process_csv w base lines =
           (case process_lines i n [] (drop 3 lines) of
              Inl e \<Rightarrow> (Inl e, w)
            | Inr funds \<Rightarrow> write_json w base funds) \<and>
         (\<forall>fs. fs \<noteq> [] \<and> (\<forall>f\<in>set fs. length f \<le> field_limit) \<longrightarrow>
            Reader_iternext [join [COMMA] (map quote_field fs) @ [LF]] = Inr fs) \<and>
         (\<forall>fs. fs \<noteq> [] \<and> fs \<noteq> [[]] \<and> (\<forall>f\<in>set fs. length f \<le> field_limit) \<longrightarrow>
            Reader_iternext [join [COMMA] (map write_field fs) @ [LF]] = Inr fs) \<and>
         (\<forall>line row funds rest.
            Reader_iternext [line] = Inr row \<and> \<not> max i n < length row \<longrightarrow>
            process_lines i n funds (line # rest) = process_lines i n funds rest) \<and>
         (\<forall>line funds funds'.
            process_lines i n funds [line] = Inr funds' \<and> funds' \<noteq> funds \<longrightarrow>
            (\<exists>row. Reader_iternext [line] = Inr row \<and> max i n < length row))"
proof -
  have 1: "join [COMMA] headers = header_line"
    and 2: "\<forall>h\<in>set headers. COMMA \<notin> set h"
    and 3: "length headers = Suc (count_list header_line COMMA)"
    unfolding assms(3) split_def
    using split_acc_join [of COMMA "[]" header_line]
      split_acc_no_sep [of COMMA "[]" header_line] split_acc_length [of COMMA "[]" header_line]
    by simp_all
  from assms(4,5) have 4: "headers ! i = FUND_CODE" and 5: "headers ! n = FUND_FULL_NAME"
    by (simp_all add: list_index_Some)
  have 6: "process_csv w base lines =
           (case process_lines i n [] (drop 3 lines) of
              Inl e \<Rightarrow> (Inl e, w)
            | Inr funds \<Rightarrow> write_json w base funds)"
    using assms by (simp add: process_csv_def Let_def)
  have 7: "\<forall>fs. fs \<noteq> [] \<and> (\<forall>f\<in>set fs. length f \<le> field_limit) \<longrightarrow>
            Reader_iternext [join [COMMA] (map quote_field fs) @ [LF]] = Inr fs"
    using quoted_row_read by blast
  have 10: "\<forall>fs. fs \<noteq> [] \<and> fs \<noteq> [[]] \<and> (\<forall>f\<in>set fs. length f \<le> field_limit) \<longrightarrow>
            Reader_iternext [join [COMMA] (map write_field fs) @ [LF]] = Inr fs"
    using written_row_read by blast
  have 8: "\<forall>line row funds rest.
            Reader_iternext [line] = Inr row \<and> \<not> max i n < length row \<longrightarrow>
            process_lines i n funds (line # rest) = process_lines i n funds rest"
    by auto
  have 9: "\<forall>line funds funds'.
            process_lines i n funds [line] = Inr funds' \<and> funds' \<noteq> funds \<longrightarrow>
            (\<exists>row. Reader_iternext [line] = Inr row \<and> max i n < length row)"
    using process_lines_single by blast
  from 1 2 3 4 5 6 7 8 9 10 show ?thesis by blast
qed

theorem header_split_and_row_parsing_witness:
  \<open>split COMMA (strip (quoted_header_lines ! 2)) =
     [ascii ''"a'', ascii ''b"'', FUND_CODE, FUND_FULL_NAME] \<and>
   list_index (split COMMA (strip (quoted_header_lines ! 2))) FUND_CODE = Some 2 \<and>
   list_index (split COMMA (strip (quoted_header_lines ! 2))) FUND_FULL_NAME = Some 3 \<and>
   Reader_iternext [quoted_header_lines ! 3] = Inr [ascii ''x,y'', ascii ''7'', ascii ''Seven''] \<and>
   Reader_iternext [quoted_header_lines ! 4] =
     Inr [ascii ''x'', ascii ''y'', ascii ''7'', ascii ''Seven''] \<and>
   process_lines 2 3 [] (drop 3 quoted_header_lines) =
     Inr [\<lparr>fund_id = ascii ''7'', fund_name = ascii ''Seven''\<rparr>] \<and>
   process_csv empty_world [] quoted_header_lines =
     write_json empty_world [] [\<lparr>fund_id = ascii ''7'', fund_name = ascii ''Seven''\<rparr>] \<and>
   Reader_iternext [join [COMMA] (map quote_field [ascii ''x,y'', ascii ''say "hi"'']) @ [LF]] =
     Inr [ascii ''x,y'', ascii ''say "hi"''] \<and>
   Reader_iternext [join [COMMA] (map write_field [ascii ''x,y'', ascii ''say "hi"'']) @ [LF]] =
     Inr [ascii ''x,y'', ascii ''say "hi"'']\<close>
proof -
  let ?hs = \<open>[ascii ''"a'', ascii ''b"'', FUND_CODE, FUND_FULL_NAME]\<close>
  have 1: "3 \<le> length quoted_header_lines" by (simp add: quoted_header_lines_def)
  have 2: "?hs = split COMMA (strip (quoted_header_lines ! 2))"
    by (simp add: quoted_header_lines_def ascii_def header_eval COMMA_def LF_def)
  have 3: "list_index ?hs FUND_CODE = Some 2"
    and 4: "list_index ?hs FUND_FULL_NAME = Some 3"
    by (simp_all add: ascii_def FUND_CODE_def FUND_FULL_NAME_def)
  have 5: \<open>Reader_iternext [quoted_header_lines ! 3] =
             Inr [ascii ''x,y'', ascii ''7'', ascii ''Seven'']\<close>
    and 6: "Reader_iternext [quoted_header_lines ! 4] =
             Inr [ascii ''x'', ascii ''y'', ascii ''7'', ascii ''Seven'']"
    by (simp_all add: quoted_header_lines_def ascii_def csv_eval)
  have 7: "process_lines 2 3 [] (drop 3 quoted_header_lines) =
     Inr [\<lparr>fund_id = ascii ''7'', fund_name = ascii ''Seven''\<rparr>]"
    by (simp add: quoted_header_lines_def ascii_def csv_eval strip_def isspace_def Let_def)
  have 8: \<open>[ascii ''x,y'', ascii ''say "hi"''] \<noteq> [] \<and>
           (\<forall>f\<in>set [ascii ''x,y'', ascii ''say "hi"'']. length f \<le> field_limit)\<close>
    and 9: \<open>[ascii ''x,y'', ascii ''say "hi"''] \<noteq> [[]]\<close>
    by (simp_all add: ascii_def field_limit_def)
  note inst = header_split_and_row_parsing [OF 1 refl 2 3 4, of empty_world "[]"]
  from inst have a: "process_csv empty_world [] quoted_header_lines =
           (case process_lines 2 3 [] (drop 3 quoted_header_lines) of
              Inl e \<Rightarrow> (Inl e, empty_world)
            | Inr funds \<Rightarrow> write_json empty_world [] funds)" by blast
  from inst 8 have b: \<open>Reader_iternext
      [join [COMMA] (map quote_field [ascii ''x,y'', ascii ''say "hi"'']) @ [LF]] =
     Inr [ascii ''x,y'', ascii ''say "hi"'']\<close> by blast
  from inst 8 9 have c: \<open>Reader_iternext
      [join [COMMA] (map write_field [ascii ''x,y'', ascii ''say "hi"'']) @ [LF]] =
     Inr [ascii ''x,y'', ascii ''say "hi"'']\<close> by blast
  show ?thesis
    using 2 3 4 5 6 7 a b c by simp
qed



text \<open>
  C7. After a run that ends with the success message, decoding the output file as UTF-8
  and reading the text as JSON gives the list of the objects of the accepted records, in
  order; and running the script again on the world it left gives the same files (the
  output byte for byte) and the same directories.
\<close>

theorem roundtrip_and_rerun:
  assumes "generate_fund_list big5 base w = (Inr (), w')" and "last (stdout w') = Success"
  shows "\<exists>lines i n funds b text.
           fst (read_lines big5 (print w (ReadingCsvFrom (CSV_PATH base))) (CSV_PATH base))
             = Inr lines \<and>
           list_index (split COMMA (strip (lines ! 2))) FUND_CODE = Some i \<and>
           list_index (split COMMA (strip (lines ! 2))) FUND_FULL_NAME = Some n \<and>
           process_lines i n [] (drop 3 lines) = Inr funds \<and>
           files w' (JSON_PATH base) = Some b \<and> utf8_decode b = Some text \<and>
           json_loads text = Some (JArray (map fund_json funds)) \<and>
           (\<exists>w''. generate_fund_list big5 base w' = (Inr (), w'') \<and>
                  last (stdout w'') = Success \<and> files w'' = files w' \<and> dirs w'' = dirs w')"
proof -
  let ?J = "JSON_PATH base"
  from assms obtain lines w1 i n funds where
    rd: "read_lines big5 (print w (ReadingCsvFrom (CSV_PATH base))) (CSV_PATH base)
           = (Inr lines, w1)"
    and i: "list_index (split COMMA (strip (lines ! 2))) FUND_CODE = Some i"
    and n: "list_index (split COMMA (strip (lines ! 2))) FUND_FULL_NAME = Some n"
    and pl: "process_lines i n [] (drop 3 lines) = Inr funds"
    and wj: "write_json w1 base funds = (Inr (), w')"
    by (rule generate_success)
  from wj obtain w2 b where
    e: "utf8_encode (json_dumps funds) = Some b"
    and w': "w' = print (w2\<lparr>files := (files w2)(?J \<mapsto> b)\<rparr>) Success"
    by (rule write_json_success)
  have fw: "files w' ?J = Some b" by (simp add: w')
  from utf8_roundtrip [OF e] have dec: "utf8_decode b = Some (json_dumps funds)" .
  have js: "json_loads (json_dumps funds) = Some (JArray (map fund_json funds))"
    by (simp add: json_dumps_layout json_loads_roundtrip)
  from generate_rerun [OF assms] obtain w'' where
    "generate_fund_list big5 base w' = (Inr (), w'')" "last (stdout w'') = Success"
    "files w'' = files w'" "dirs w'' = dirs w'" by blast
  moreover have "fst (read_lines big5 (print w (ReadingCsvFrom (CSV_PATH base))) (CSV_PATH base))
             = Inr lines" by (simp add: rd)
  ultimately show ?thesis using i n pl fw dec js by blast
qed

theorem roundtrip_and_rerun_witness:
  "generate_fund_list (\<lambda>b. None) [] (world_with_csv scenario_bytes) = (Inr (), scenario_result) \<and>
   last (stdout scenario_result) = Success \<and>
   (\<exists>funds b text.
      files scenario_result (JSON_PATH []) = Some b \<and> utf8_decode b = Some text \<and>
      json_loads text = Some (JArray (map fund_json funds))) \<and>
   (\<exists>w''. generate_fund_list (\<lambda>b. None) [] scenario_result = (Inr (), w'') \<and>
          last (stdout w'') = Success \<and> files w'' = files scenario_result \<and>
          dirs w'' = dirs scenario_result)"
proof -
  have 1: "generate_fund_list (\<lambda>b. None) [] (world_with_csv scenario_bytes) =
             (Inr (), scenario_result)" by (rule scenario_run)
  have 2: "last (stdout scenario_result) = Success" by (simp add: scenario_result_def)
  from roundtrip_and_rerun [OF 1 2] 1 2 show ?thesis by blast
qed

text \<open>
  C8. When a column name stands at several comma-separated positions of the header line,
  the column used is the leftmost one: the loop runs with the least index of each name.
\<close>

theorem leftmost_header_occurrence:
  assumes "3 \<le> length lines"
    and "headers = split COMMA (strip (lines ! 2))"
    and "FUND_CODE \<in> set headers"
    and "FUND_FULL_NAME \<in> set headers"
  shows "\<exists>i n. i < length headers \<and> headers ! i = FUND_CODE \<and> (\<forall>j<i. headers ! j \<noteq> FUND_CODE) \<and>
           n < length headers \<and> headers ! n = FUND_FULL_NAME \<and>
           (\<forall>j<n. headers ! j \<noteq> FUND_FULL_NAME) \<and>
           process_csv w base lines =
             (case process_lines i n [] (drop 3 lines) of
                Inl e \<Rightarrow> (Inl e, w)
              | Inr funds \<Rightarrow> write_json w base funds)"
proof -
  from assms(3) obtain i where i: "list_index headers FUND_CODE = Some i"
    using list_index_None [of headers FUND_CODE] by (cases "list_index headers FUND_CODE") auto
  from assms(4) obtain n where n: "list_index headers FUND_FULL_NAME = Some n"
    using list_index_None [of headers FUND_FULL_NAME]
    by (cases "list_index headers FUND_FULL_NAME") auto
  have "process_csv w base lines =
             (case process_lines i n [] (drop 3 lines) of
                Inl e \<Rightarrow> (Inl e, w)
              | Inr funds \<Rightarrow> write_json w base funds)"
    using assms(1) i n unfolding assms(2) by (simp add: process_csv_def Let_def)
  with i n show ?thesis
    unfolding list_index_Some by blast
qed

theorem leftmost_header_occurrence_witness:
  "3 \<le> length duplicate_header_lines \<and>
   split COMMA (strip (duplicate_header_lines ! 2)) =
     [FUND_CODE, FUND_FULL_NAME, FUND_CODE, FUND_FULL_NAME] \<and>
   (\<exists>i n. i = 0 \<and> n = 1 \<and>
      process_csv empty_world [] duplicate_header_lines =
             (case process_lines i n [] (drop 3 duplicate_header_lines) of
                Inl e \<Rightarrow> (Inl e, empty_world)
              | Inr funds \<Rightarrow> write_json empty_world [] funds)) \<and>
   process_lines 0 1 [] (drop 3 duplicate_header_lines) =
     Inr [\<lparr>fund_id = ascii ''A'', fund_name = ascii ''B''\<rparr>]"
proof -
  let ?hs = "[FUND_CODE, FUND_FULL_NAME, FUND_CODE, FUND_FULL_NAME]"
  have 1: "3 \<le> length duplicate_header_lines" by (simp add: duplicate_header_lines_def)
  have 2: "?hs = split COMMA (strip (duplicate_header_lines ! 2))"
    by (simp add: duplicate_header_lines_def ascii_def header_eval COMMA_def LF_def)
  have 3: "FUND_CODE \<in> set ?hs" and 4: "FUND_FULL_NAME \<in> set ?hs" by simp_all
  have 5: "process_lines 0 1 [] (drop 3 duplicate_header_lines) =
     Inr [\<lparr>fund_id = ascii ''A'', fund_name = ascii ''B''\<rparr>]"
    by (simp add: duplicate_header_lines_def ascii_def csv_eval strip_def isspace_def Let_def)
  from leftmost_header_occurrence [OF 1 2 3 4, of empty_world "[]"]
  obtain i n where i: "\<forall>j<i. ?hs ! j \<noteq> FUND_CODE" and n: "n < length ?hs" "?hs ! n = FUND_FULL_NAME" "\<forall>j<n. ?hs ! j \<noteq> FUND_FULL_NAME"
    and run: "process_csv empty_world [] duplicate_header_lines =
             (case process_lines i n [] (drop 3 duplicate_header_lines) of
                Inl e \<Rightarrow> (Inl e, empty_world)
              | Inr funds \<Rightarrow> write_json empty_world [] funds)"
    by blast
  have "i = 0" using i by (cases i) auto
  moreover have "n \<noteq> 0"
  proof
    assume "n = 0"
    with n(2) show False by (simp add: FUND_CODE_def FUND_FULL_NAME_def)
  qed
  then have "n = 1" using n(3) by (cases n) (auto simp: less_Suc_eq_0_disj)
  ultimately show ?thesis using 1 2 5 run by simp
qed






end
